theory Spec2Isabelle
  imports Main
begin

section \<open>Python values\<close>

text \<open>
  The program is \<^verbatim>\<open>scripts/generate_deployment_pdf.py\<close>. A Python \<^verbatim>\<open>str\<close> is a
  sequence of Unicode code points, so it is modelled as a list of naturals and
  \<^verbatim>\<open>len\<close> is \<open>length\<close>. A \<^verbatim>\<open>bytes\<close> value is a list of 8-bit characters.
  Exceptions are values of \<open>py_error\<close>; a function that can raise returns
  \<open>py_error + 'a\<close>, with \<open>Inl\<close> for the exception.
\<close>

type_synonym pystr = "nat list"

type_synonym bytes = "char list"

datatype py_error = ValueError | KeyError | IndexError | UnicodeEncodeError | UnicodeDecodeError | OSError

definition str :: "string \<Rightarrow> pystr" where
  \<comment> \<open>a literal of the source, as code points\<close>
  "str s = map of_char s"

definition PAGE_WIDTH :: nat where "PAGE_WIDTH = 595"
definition PAGE_HEIGHT :: nat where "PAGE_HEIGHT = 842"
definition MARGIN_LEFT :: nat where "MARGIN_LEFT = 50"
definition MARGIN_TOP :: nat where "MARGIN_TOP = 50"
definition MARGIN_BOTTOM :: nat where "MARGIN_BOTTOM = 50"
definition FONT_SIZE :: nat where "FONT_SIZE = 10"
definition LINE_HEIGHT :: nat where "LINE_HEIGHT = 14"
definition MAX_CHARS_PER_LINE :: int where "MAX_CHARS_PER_LINE = 94"
definition LINES_PER_PAGE :: nat where
  "LINES_PER_PAGE = (PAGE_HEIGHT - MARGIN_TOP - MARGIN_BOTTOM) div LINE_HEIGHT"

section \<open>paginate\<close>

definition range0 :: "nat \<Rightarrow> nat \<Rightarrow> nat list" where
  \<comment> \<open>\<^verbatim>\<open>range(0, stop, step)\<close> for a positive step\<close>
  "range0 stop step = map (\<lambda>k. k * step) [0 ..< (stop + step - 1) div step]"

definition paginate :: "pystr list \<Rightarrow> int \<Rightarrow> py_error + pystr list list" where
  \<comment> \<open>\<^verbatim>\<open>range\<close> raises ValueError on a zero step and is empty on a negative one;
      the slice \<^verbatim>\<open>lines[index : index + n]\<close> is only taken for a positive \<open>n\<close>.\<close>
  "paginate lines lines_per_page =
     (if lines = [] then Inr [[[]]]
      else if lines_per_page = 0 then Inl ValueError
      else if lines_per_page < 0 then Inr []
      else Inr (map (\<lambda>index. take (nat lines_per_page) (drop index lines))
                  (range0 (length lines) (nat lines_per_page))))"

section \<open>pdf_escape\<close>

definition replace1 :: "nat \<Rightarrow> pystr \<Rightarrow> pystr \<Rightarrow> pystr" where
  \<comment> \<open>\<^verbatim>\<open>text.replace(old, new)\<close> for a pattern \<open>old\<close> of one character\<close>
  "replace1 old new text = concat (map (\<lambda>c. if c = old then new else [c]) text)"

definition pdf_escape :: "pystr \<Rightarrow> pystr" where
  \<comment> \<open>92 is the backslash, 40 and 41 are the parentheses\<close>
  "pdf_escape text =
     replace1 41 [92, 41] (replace1 40 [92, 40] (replace1 92 [92, 92] text))"

definition escape_char :: "nat \<Rightarrow> pystr" where
  \<comment> \<open>the escape of one character: the three special characters get one
      backslash in front, every other character stands for itself\<close>
  "escape_char c = (if c = 92 \<or> c = 40 \<or> c = 41 then [92, c] else [c])"

fun pdf_unescape :: "pystr \<Rightarrow> pystr" where
  \<comment> \<open>the reader of an escaped string: the character after a backslash is taken as it is\<close>
  "pdf_unescape [] = []"
| "pdf_unescape [c] = [c]"
| "pdf_unescape (c # d # cs) = (if c = 92 then d # pdf_unescape cs else c # pdf_unescape (d # cs))"

section \<open>The PDF emitter\<close>

definition LF :: char where
  \<comment> \<open>the newline byte\<close>
  "LF = CHR 0x0A"

fun decimal :: "nat \<Rightarrow> string" where
  \<comment> \<open>the decimal digits of a non-negative integer, as an f-string prints it\<close>
  "decimal n = (if n < 10 then [char_of (48 + n)]
                else decimal (n div 10) @ [char_of (48 + n mod 10)])"

declare decimal.simps [simp del]

definition zfill10 :: "string \<Rightarrow> string" where
  \<comment> \<open>the format \<^verbatim>\<open>:010d\<close> of a non-negative integer: zeros in front up to a
      width of ten, and the digits alone when there are more than ten\<close>
  "zfill10 digits = replicate (10 - length digits) (CHR ''0'') @ digits"

fun py_join :: "'a list \<Rightarrow> 'a list list \<Rightarrow> 'a list" where
  "py_join sep [] = []"
| "py_join sep [x] = x"
| "py_join sep (x # y # ys) = x @ sep @ py_join sep (y # ys)"

definition to_latin1 :: "pystr \<Rightarrow> pystr" where
  \<comment> \<open>encoding with \<^verbatim>\<open>errors="replace"\<close> puts a question mark (63) for each character
      that Latin-1 does not have; decoding gives the characters back\<close>
  "to_latin1 value = map (\<lambda>c. if c < 256 then c else 63) value"

definition encode_latin1 :: "pystr \<Rightarrow> py_error + bytes" where
  \<comment> \<open>\<^verbatim>\<open>text.encode("latin-1")\<close>, which raises on a character above 255\<close>
  "encode_latin1 text =
     (if \<forall>c \<in> set text. c < 256 then Inr (map char_of text) else Inl UnicodeEncodeError)"

definition page_commands :: "pystr list \<Rightarrow> pystr list" where
  \<comment> \<open>the list \<^verbatim>\<open>commands\<close> of \<^verbatim>\<open>build_page_stream\<close> when it is joined\<close>
  "page_commands page_lines =
     [str ''BT'',
      str ''/F1 '' @ str (decimal FONT_SIZE) @ str '' Tf'',
      str ''1 0 0 1 '' @ str (decimal MARGIN_LEFT) @ str '' '' @
        str (decimal (PAGE_HEIGHT - MARGIN_TOP)) @ str '' Tm'',
      str (decimal LINE_HEIGHT) @ str '' TL'']
     @ concat (map (\<lambda>line. [str ''('' @ pdf_escape (to_latin1 line) @ str '') Tj'', str ''T*''])
                page_lines)
     @ [str ''ET'']"

definition build_page_stream :: "pystr list \<Rightarrow> py_error + bytes" where
  "build_page_stream page_lines = encode_latin1 (py_join [10] (page_commands page_lines) @ [10])"

definition font_object :: bytes where
  "font_object = ''<< /Type /Font /Subtype /Type1 /BaseFont /Helvetica >>''"

definition catalog_object :: bytes where
  "catalog_object = ''<< /Type /Catalog /Pages 2 0 R >>''"

definition content_object :: "bytes \<Rightarrow> bytes" where
  "content_object stream =
     ''<< /Length '' @ decimal (length stream) @ '' >>'' @ [LF] @ ''stream'' @ [LF]
     @ stream @ ''endstream''"

definition page_object :: "nat \<Rightarrow> bytes" where
  "page_object content_id =
     ''<< /Type /Page /Parent 2 0 R /MediaBox [0 0 '' @ decimal PAGE_WIDTH @ '' ''
     @ decimal PAGE_HEIGHT @ ''] '' @ ''/Resources << /Font << /F1 3 0 R >> >> /Contents ''
     @ decimal content_id @ '' 0 R >>''"

definition pages_object :: "nat list \<Rightarrow> bytes" where
  "pages_object page_ids =
     ''<< /Type /Pages /Kids [ ''
     @ py_join '' '' (map (\<lambda>page_id. decimal page_id @ '' 0 R'') page_ids)
     @ '' ] /Count '' @ decimal (length page_ids) @ '' >>''"

fun add_pages ::
  "pystr list list \<Rightarrow> (nat \<rightharpoonup> bytes) \<Rightarrow> nat list \<Rightarrow> nat
     \<Rightarrow> py_error + ((nat \<rightharpoonup> bytes) \<times> nat list \<times> nat)" where
  \<comment> \<open>the loop over \<^verbatim>\<open>pages\<close>, on the state \<^verbatim>\<open>objects\<close>, \<^verbatim>\<open>page_ids\<close>, \<^verbatim>\<open>max_object_id\<close>\<close>
  "add_pages [] objects page_ids max_object_id = Inr (objects, page_ids, max_object_id)"
| "add_pages (page # pages) objects page_ids max_object_id =
     (let page_id = max_object_id + 1; content_id = max_object_id + 2 in
      case build_page_stream page of
        Inl e \<Rightarrow> Inl e
      | Inr stream \<Rightarrow>
          add_pages pages
            (objects(content_id \<mapsto> content_object stream, page_id \<mapsto> page_object content_id))
            (page_ids @ [page_id]) content_id)"

definition object_entry :: "nat \<Rightarrow> bytes \<Rightarrow> bytes" where
  \<comment> \<open>what the serialisation loop appends for one object\<close>
  "object_entry object_id body =
     decimal object_id @ '' 0 obj'' @ [LF] @ body @ [LF] @ ''endobj'' @ [LF]"

fun write_objects ::
  "(nat \<rightharpoonup> bytes) \<Rightarrow> nat list \<Rightarrow> bytes \<Rightarrow> nat list \<Rightarrow> py_error + (bytes \<times> nat list)" where
  \<comment> \<open>the first loop over \<^verbatim>\<open>range(1, max_object_id + 1)\<close>, on \<^verbatim>\<open>output\<close> and \<^verbatim>\<open>offsets\<close>;
      an index outside \<^verbatim>\<open>offsets\<close> and a missing key of \<^verbatim>\<open>objects\<close> raise\<close>
  "write_objects objects [] output offsets = Inr (output, offsets)"
| "write_objects objects (object_id # ids) output offsets =
     (if length offsets \<le> object_id then Inl IndexError
      else case objects object_id of
        None \<Rightarrow> Inl KeyError
      | Some body \<Rightarrow>
          write_objects objects ids (output @ object_entry object_id body)
            (offsets[object_id := length output]))"

definition xref_entry :: "nat \<Rightarrow> bytes" where
  "xref_entry offset = zfill10 (decimal offset) @ '' 00000 n '' @ [LF]"

fun write_xref :: "nat list \<Rightarrow> nat list \<Rightarrow> bytes \<Rightarrow> py_error + bytes" where
  \<comment> \<open>the second loop over \<^verbatim>\<open>range(1, max_object_id + 1)\<close>\<close>
  "write_xref offsets [] output = Inr output"
| "write_xref offsets (object_id # ids) output =
     (if length offsets \<le> object_id then Inl IndexError
      else write_xref offsets ids (output @ xref_entry (offsets ! object_id)))"

definition pdf_header :: bytes where
  "pdf_header = ''%PDF-1.4'' @ [LF] @ ''%'' @ [CHR 0xE2, CHR 0xE3, CHR 0xCF, CHR 0xD3] @ [LF]"

definition xref_head :: "nat \<Rightarrow> bytes" where
  "xref_head max_object_id =
     ''xref'' @ [LF] @ ''0 '' @ decimal (max_object_id + 1) @ [LF]
     @ ''0000000000 65535 f '' @ [LF]"

definition trailer :: "nat \<Rightarrow> nat \<Rightarrow> bytes" where
  "trailer max_object_id xref_offset =
     ''trailer'' @ [LF] @ ''<< /Size '' @ decimal (max_object_id + 1) @ '' /Root 1 0 R >>'' @ [LF]
     @ ''startxref'' @ [LF] @ decimal xref_offset @ [LF] @ ''%%EOF'' @ [LF]"

definition pdf_objects :: "pystr list list \<Rightarrow> py_error + ((nat \<rightharpoonup> bytes) \<times> nat)" where
  \<comment> \<open>\<^verbatim>\<open>objects\<close> and \<^verbatim>\<open>max_object_id\<close> when all objects are built (after line 151)\<close>
  "pdf_objects pages =
     (case add_pages pages [3 \<mapsto> font_object] [] 3 of
        Inl e \<Rightarrow> Inl e
      | Inr (objects, page_ids, max_object_id) \<Rightarrow>
          Inr (objects(2 \<mapsto> pages_object page_ids, 1 \<mapsto> catalog_object), max_object_id))"

definition pdf_body :: "pystr list list \<Rightarrow> py_error + (bytes \<times> nat list \<times> nat)" where
  \<comment> \<open>\<^verbatim>\<open>output\<close>, \<^verbatim>\<open>offsets\<close> and \<^verbatim>\<open>max_object_id\<close> when all objects are written (line 163)\<close>
  "pdf_body pages =
     (case pdf_objects pages of
        Inl e \<Rightarrow> Inl e
      | Inr (objects, max_object_id) \<Rightarrow>
          (case write_objects objects [1 ..< max_object_id + 1] pdf_header
                  (replicate (max_object_id + 1) 0) of
             Inl e \<Rightarrow> Inl e
           | Inr (output, offsets) \<Rightarrow> Inr (output, offsets, max_object_id)))"

definition pdf_output :: "pystr list list \<Rightarrow> py_error + bytes" where
  \<comment> \<open>the byte array \<^verbatim>\<open>output\<close> that \<^verbatim>\<open>generate_pdf\<close> hands to \<^verbatim>\<open>write_bytes\<close>\<close>
  "pdf_output pages =
     (case pdf_body pages of
        Inl e \<Rightarrow> Inl e
      | Inr (output, offsets, max_object_id) \<Rightarrow>
          let xref_offset = length output in
          case write_xref offsets [1 ..< max_object_id + 1]
                 (output @ xref_head max_object_id) of
            Inl e \<Rightarrow> Inl e
          | Inr output \<Rightarrow> Inr (output @ trailer max_object_id xref_offset))"

section \<open>Strings of the formatter\<close>

definition isspace :: "nat \<Rightarrow> bool" where
  \<comment> \<open>the characters that \<^verbatim>\<open>str.isspace\<close>, \<^verbatim>\<open>str.strip\<close> and the \<^verbatim>\<open>\s\<close> of \<^verbatim>\<open>re\<close> take as
      whitespace\<close>
  "isspace c \<longleftrightarrow>
     (9 \<le> c \<and> c \<le> 13) \<or> (28 \<le> c \<and> c \<le> 32) \<or> c = 133 \<or> c = 160 \<or> c = 5760 \<or>
     (8192 \<le> c \<and> c \<le> 8202) \<or> c = 8232 \<or> c = 8233 \<or> c = 8239 \<or> c = 8287 \<or> c = 12288"

definition decimal_blocks :: "nat list" where
  \<comment> \<open>the decimal digits of Unicode 14.0.0 (category Nd, the \<^verbatim>\<open>\d\<close> of \<^verbatim>\<open>re\<close>) come in
      runs of ten; these are the first code points of the runs\<close>
  "decimal_blocks =
     [48, 1632, 1776, 1984, 2406, 2534, 2662, 2790, 2918, 3046, 3174, 3302, 3430, 3558, 3664,
      3792, 3872, 4160, 4240, 6112, 6160, 6470, 6608, 6784, 6800, 6992, 7088, 7232, 7248,
      42528, 43216, 43264, 43472, 43504, 43600, 44016, 65296, 66720, 68912, 69734, 69872,
      69942, 70096, 70384, 70736, 70864, 71248, 71360, 71472, 71904, 72016, 72784, 73040,
      73120, 92768, 92864, 93008, 120782, 120792, 120802, 120812, 120822, 123200, 123632,
      125264, 130032]"

definition isdecimal :: "nat \<Rightarrow> bool" where
  "isdecimal c \<longleftrightarrow> list_ex (\<lambda>b. b \<le> c \<and> c < b + 10) decimal_blocks"

definition is_linebreak :: "nat \<Rightarrow> bool" where
  \<comment> \<open>the line boundaries of \<^verbatim>\<open>str.splitlines\<close>\<close>
  "is_linebreak c \<longleftrightarrow>
     (10 \<le> c \<and> c \<le> 13) \<or> (28 \<le> c \<and> c \<le> 30) \<or> c = 133 \<or> c = 8232 \<or> c = 8233"

definition is_wordsep :: "nat \<Rightarrow> bool" where
  \<comment> \<open>\<^verbatim>\<open>textwrap._whitespace\<close>: tab, newline, vertical tab, form feed, return, space\<close>
  "is_wordsep c \<longleftrightarrow> (9 \<le> c \<and> c \<le> 13) \<or> c = 32"

definition rstrip :: "pystr \<Rightarrow> pystr" where
  "rstrip s = rev (dropWhile isspace (rev s))"

definition strip :: "pystr \<Rightarrow> pystr" where
  "strip s = dropWhile isspace (rstrip s)"

definition startswith :: "pystr \<Rightarrow> pystr \<Rightarrow> bool" where
  \<comment> \<open>\<^verbatim>\<open>s.startswith(p)\<close>\<close>
  "startswith s p \<longleftrightarrow> take (length p) s = p"

fun splitlines_from :: "pystr \<Rightarrow> pystr \<Rightarrow> pystr list" where
  \<comment> \<open>\<^verbatim>\<open>str.splitlines\<close>, with the line read so far; a return followed by a newline is
      one boundary, and no empty line is added after a final boundary\<close>
  "splitlines_from cur [] = (if cur = [] then [] else [cur])"
| "splitlines_from cur [c] = (if is_linebreak c then [cur] else [cur @ [c]])"
| "splitlines_from cur (c # d # cs) =
     (if c = 13 \<and> d = 10 then cur # splitlines_from [] cs
      else if is_linebreak c then cur # splitlines_from [] (d # cs)
      else splitlines_from (cur @ [c]) (d # cs))"

definition splitlines :: "pystr \<Rightarrow> pystr list" where
  "splitlines text = splitlines_from [] text"

section \<open>textwrap.wrap\<close>

text \<open>
  \<^verbatim>\<open>wrap_text\<close> calls \<^verbatim>\<open>textwrap.wrap\<close> of the standard library (CPython 3.11) with
  \<^verbatim>\<open>break_long_words=True, break_on_hyphens=False, replace_whitespace=False,
  drop_whitespace=True\<close> and the defaults \<^verbatim>\<open>expand_tabs=True, tabsize=8\<close>, no indents,
  \<^verbatim>\<open>fix_sentence_endings=False, max_lines=None\<close>. The definitions follow
  \<^verbatim>\<open>TextWrapper._munge_whitespace\<close>, \<^verbatim>\<open>_split\<close>, \<^verbatim>\<open>_handle_long_word\<close> and
  \<^verbatim>\<open>_wrap_chunks\<close> under these settings.
\<close>

fun expandtabs_from :: "nat \<Rightarrow> pystr \<Rightarrow> pystr" where
  \<comment> \<open>\<^verbatim>\<open>text.expandtabs(8)\<close>, with the current column\<close>
  "expandtabs_from col [] = []"
| "expandtabs_from col (c # cs) =
     (if c = 9 then replicate (8 - col mod 8) 32 @ expandtabs_from (col + (8 - col mod 8)) cs
      else if c = 10 \<or> c = 13 then c # expandtabs_from 0 cs
      else c # expandtabs_from (col + 1) cs)"

definition expandtabs :: "pystr \<Rightarrow> pystr" where
  "expandtabs text = expandtabs_from 0 text"

function split_chunks :: "pystr \<Rightarrow> pystr list" where
  \<comment> \<open>\<^verbatim>\<open>wordsep_simple_re.split(text)\<close> without the empty strings: the maximal runs of
      separator characters and the maximal runs of other characters, in order\<close>
  "split_chunks [] = []"
| "split_chunks (c # cs) =
     (c # takeWhile (\<lambda>x. is_wordsep x = is_wordsep c) cs)
     # split_chunks (dropWhile (\<lambda>x. is_wordsep x = is_wordsep c) cs)"
  by pat_completeness auto
termination
  by (relation "measure length") (auto simp: length_dropWhile_le less_Suc_eq_le)

fun fill_line :: "nat \<Rightarrow> pystr list \<Rightarrow> pystr list \<Rightarrow> nat \<Rightarrow> pystr list \<times> pystr list \<times> nat" where
  \<comment> \<open>the inner loop of \<^verbatim>\<open>_wrap_chunks\<close>: chunks move to \<^verbatim>\<open>cur_line\<close> while they fit.
      The source keeps the chunks reversed and pops from the end; here the head of the
      list is the next chunk.\<close>
  "fill_line width [] cur_line cur_len = (cur_line, [], cur_len)"
| "fill_line width (c # chunks) cur_line cur_len =
     (if cur_len + length c \<le> width
      then fill_line width chunks (cur_line @ [c]) (cur_len + length c)
      else (cur_line, c # chunks, cur_len))"

definition py_upto :: "int \<Rightarrow> 'a list \<Rightarrow> 'a list" where
  \<comment> \<open>the slice \<^verbatim>\<open>xs[:e]\<close>; a negative \<open>e\<close> counts from the end\<close>
  "py_upto e xs = (if 0 \<le> e then take (nat e) xs else take (length xs - nat (- e)) xs)"

definition py_from :: "int \<Rightarrow> 'a list \<Rightarrow> 'a list" where
  \<comment> \<open>the slice \<^verbatim>\<open>xs[e:]\<close>\<close>
  "py_from e xs = (if 0 \<le> e then drop (nat e) xs else drop (length xs - nat (- e)) xs)"

definition handle_long_word ::
  "pystr \<Rightarrow> pystr list \<Rightarrow> pystr list \<Rightarrow> nat \<Rightarrow> nat \<Rightarrow> pystr list \<times> pystr list" where
  \<comment> \<open>\<^verbatim>\<open>_handle_long_word\<close> on the next chunk and the chunks after it: a piece of the
      chunk goes to \<^verbatim>\<open>cur_line\<close>, the rest stays the next chunk\<close>
  "handle_long_word chunk rest cur_line cur_len width =
     (let space_left = (if width < 1 then 1 else int width - int cur_len) in
      (cur_line @ [py_upto space_left chunk], py_from space_left chunk # rest))"

definition drop_leading_whitespace :: "pystr list \<Rightarrow> bool \<Rightarrow> pystr list" where
  \<comment> \<open>\<^verbatim>\<open>if self.drop_whitespace and chunks[-1].strip() == '' and lines: del chunks[-1]\<close>\<close>
  "drop_leading_whitespace chunks have_lines =
     (case chunks of
        [] \<Rightarrow> []
      | c # rest \<Rightarrow> if strip c = [] \<and> have_lines then rest else chunks)"

definition break_long_word ::
  "nat \<Rightarrow> pystr list \<Rightarrow> pystr list \<Rightarrow> nat \<Rightarrow> pystr list \<times> pystr list" where
  \<comment> \<open>\<^verbatim>\<open>if chunks and len(chunks[-1]) > width: self._handle_long_word(...)\<close>\<close>
  "break_long_word width cur_line chunks cur_len =
     (case chunks of
        [] \<Rightarrow> (cur_line, chunks)
      | c # rest \<Rightarrow>
          if width < length c then handle_long_word c rest cur_line cur_len width
          else (cur_line, chunks))"

definition drop_trailing_whitespace :: "pystr list \<Rightarrow> pystr list" where
  \<comment> \<open>\<^verbatim>\<open>if self.drop_whitespace and cur_line and cur_line[-1].strip() == '': del cur_line[-1]\<close>\<close>
  "drop_trailing_whitespace cur_line =
     (if cur_line \<noteq> [] \<and> strip (last cur_line) = [] then butlast cur_line else cur_line)"

definition next_line :: "nat \<Rightarrow> pystr list \<Rightarrow> bool \<Rightarrow> pystr list \<times> pystr list" where
  \<comment> \<open>one turn of the outer loop of \<^verbatim>\<open>_wrap_chunks\<close>, from the chunks that are left and
      whether \<^verbatim>\<open>lines\<close> is non-empty, to \<^verbatim>\<open>cur_line\<close> and the chunks left after it\<close>
  "next_line width chunks have_lines =
     (case fill_line width (drop_leading_whitespace chunks have_lines) [] 0 of
        (cur_line, chunks', cur_len) \<Rightarrow>
          (case break_long_word width cur_line chunks' cur_len of
             (cur_line', chunks'') \<Rightarrow> (drop_trailing_whitespace cur_line', chunks'')))"

definition chunks_weight :: "pystr list \<Rightarrow> nat" where
  \<comment> \<open>what decreases in the outer loop: the characters and the chunks that are left\<close>
  "chunks_weight chunks = sum_list (map (\<lambda>c. Suc (length c)) chunks)"

lemma fill_line_split:
  "fill_line width chunks cur_line cur_len = (cur_line', chunks', cur_len') \<Longrightarrow>
   \<exists>taken. chunks = taken @ chunks' \<and> cur_line' = cur_line @ taken \<and>
           cur_len' = cur_len + sum_list (map length taken) \<and>
           (cur_len \<le> width \<longrightarrow> cur_len' \<le> width) \<and>
           (case chunks' of [] \<Rightarrow> True | c # _ \<Rightarrow> width < cur_len' + length c)"
proof (induction chunks arbitrary: cur_line cur_len)
  case Nil
  then show ?case by simp
next
  case (Cons c chunks)
  show ?case
  proof (cases "cur_len + length c \<le> width")
    case True
    with Cons.prems have
      "fill_line width chunks (cur_line @ [c]) (cur_len + length c) = (cur_line', chunks', cur_len')"
      by simp
    from Cons.IH [OF this] obtain taken where
      "chunks = taken @ chunks'" "cur_line' = (cur_line @ [c]) @ taken"
      "cur_len' = cur_len + length c + sum_list (map length taken)"
      "cur_len + length c \<le> width \<longrightarrow> cur_len' \<le> width"
      "case chunks' of [] \<Rightarrow> True | c # _ \<Rightarrow> width < cur_len' + length c"
      by blast
    then show ?thesis using True by (intro exI [of _ "c # taken"]) simp
  next
    case False
    with Cons.prems show ?thesis by (intro exI [of _ "[]"]) auto
  qed
qed

lemma py_from_length: "length (py_from e xs) \<le> length xs"
  by (simp add: py_from_def)

lemma chunks_weight_append:
  "chunks_weight (xs @ ys) = chunks_weight xs + chunks_weight ys"
  by (simp add: chunks_weight_def)

lemma next_line_decreases:
  assumes "chunks \<noteq> []" and "next_line width chunks have_lines = (cur_line, chunks')"
  shows "chunks_weight chunks' < chunks_weight chunks"
proof -
  obtain c0 rest0 where c0: "chunks = c0 # rest0" using assms(1) by (cases chunks) auto
  define chunks1 where "chunks1 = drop_leading_whitespace chunks have_lines"
  obtain cur_line1 chunks2 cur_len where
    f: "fill_line width chunks1 [] 0 = (cur_line1, chunks2, cur_len)"
    by (cases "fill_line width chunks1 [] 0") auto
  from fill_line_split [OF f] obtain taken where
    t: "chunks1 = taken @ chunks2" and len: "cur_len = sum_list (map length taken)"
    and nofit: "case chunks2 of [] \<Rightarrow> True | c # _ \<Rightarrow> width < cur_len + length c"
    by auto
  obtain cur_line2 chunks3 where
    b: "break_long_word width cur_line1 chunks2 cur_len = (cur_line2, chunks3)"
    by (cases "break_long_word width cur_line1 chunks2 cur_len") auto
  have res: "chunks' = chunks3"
    using assms(2) by (simp add: next_line_def chunks1_def [symmetric] f b)
  have w1: "chunks_weight chunks1 \<le> chunks_weight chunks"
    by (simp add: chunks1_def drop_leading_whitespace_def c0 chunks_weight_def)
  have w1s: "chunks_weight chunks1 < chunks_weight chunks" if "chunks1 \<noteq> chunks"
    using that
    by (auto simp: chunks1_def drop_leading_whitespace_def c0 chunks_weight_def split: if_splits)
  have w2: "chunks_weight chunks2 + length taken \<le> chunks_weight chunks1"
  proof -
    have "length taken \<le> chunks_weight taken"
      by (induction taken) (auto simp: chunks_weight_def)
    then show ?thesis by (simp add: t chunks_weight_append)
  qed
  have w3: "chunks_weight chunks3 \<le> chunks_weight chunks2"
    using b py_from_length
    by (auto simp: break_long_word_def handle_long_word_def chunks_weight_def Let_def
             split: list.splits if_splits)
  show ?thesis
  proof (cases "chunks1 = chunks")
    case False
    from w1s [OF False] w2 w3 res show ?thesis by simp
  next
    case same: True
    show ?thesis
    proof (cases taken)
      case (Cons a as)
      then show ?thesis using w1 w2 w3 res by simp
    next
      case Nil
      with t same c0 have c2: "chunks2 = c0 # rest0" by simp
      from nofit c2 len Nil have long: "width < length c0" by simp
      have cur0: "cur_len = 0" using len Nil by simp
      have "chunks3 = py_from (int (max 1 width)) c0 # rest0"
        using long b by (auto simp: break_long_word_def c2 handle_long_word_def cur0 Let_def max_def)
      moreover have "length (py_from (int (max 1 width)) c0) < length c0"
        using long by (auto simp: py_from_def)
      ultimately show ?thesis using res c0 by (simp add: chunks_weight_def)
    qed
  qed
qed

function wrap_chunks :: "nat \<Rightarrow> pystr list \<Rightarrow> pystr list \<Rightarrow> pystr list" where
  \<comment> \<open>the outer loop of \<^verbatim>\<open>_wrap_chunks\<close>, on the chunks that are left and \<^verbatim>\<open>lines\<close>\<close>
  "wrap_chunks width chunks lines =
     (if chunks = [] then lines
      else case next_line width chunks (lines \<noteq> []) of
        (cur_line, chunks') \<Rightarrow>
          wrap_chunks width chunks' (if cur_line \<noteq> [] then lines @ [concat cur_line] else lines))"
  by pat_completeness auto
termination
  by (relation "measure (\<lambda>(width, chunks, lines). chunks_weight chunks)")
     (simp_all add: next_line_decreases [OF _ sym])

declare wrap_chunks.simps [simp del]

definition textwrap_wrap :: "pystr \<Rightarrow> int \<Rightarrow> py_error + pystr list" where
  \<comment> \<open>\<^verbatim>\<open>TextWrapper.wrap\<close>: the chunks are split first, then \<^verbatim>\<open>_wrap_chunks\<close> raises
      ValueError on a width that is not positive\<close>
  "textwrap_wrap text width =
     (let chunks = split_chunks (expandtabs text) in
      if width \<le> 0 then Inl ValueError else Inr (wrap_chunks (nat width) chunks []))"

definition wrap_text :: "pystr \<Rightarrow> int \<Rightarrow> py_error + pystr list" where
  "wrap_text text width =
     (case textwrap_wrap text width of
        Inl e \<Rightarrow> Inl e
      | Inr wrapped \<Rightarrow> Inr (if wrapped \<noteq> [] then wrapped else [[]]))"

section \<open>The patterns of the formatter\<close>

text \<open>
  The three patterns are matched with \<^verbatim>\<open>re.match\<close>, so at the start of the line. In
  each of them the first group can match in one way only, since no character is both a
  whitespace and a digit, a hash, a hyphen, a star or a dot. The tail \<^verbatim>\<open>\s+(.*)$\<close> is
  tried, as \<^verbatim>\<open>re\<close> does, with the longest run of whitespace first; the dot matches
  every character but the newline, and the dollar matches at the end of the string
  and before a newline that ends the string.
\<close>

definition dot_star_eol :: "pystr \<Rightarrow> pystr option" where
  \<comment> \<open>\<^verbatim>\<open>(.*)$\<close> on the rest of the string: the group, when there is a match\<close>
  "dot_star_eol r =
     (if 10 \<notin> set r then Some r
      else if last r = 10 \<and> 10 \<notin> set (butlast r) then Some (butlast r)
      else None)"

fun whitespace_tail :: "nat \<Rightarrow> pystr \<Rightarrow> pystr option" where
  \<comment> \<open>\<^verbatim>\<open>\s+(.*)$\<close> with at most \<open>k\<close> characters for \<^verbatim>\<open>\s+\<close>, the longest first\<close>
  "whitespace_tail 0 r = None"
| "whitespace_tail (Suc k) r =
     (case dot_star_eol (drop (Suc k) r) of
        Some g \<Rightarrow> Some g
      | None \<Rightarrow> whitespace_tail k r)"

definition match_tail :: "pystr \<Rightarrow> pystr option" where
  \<comment> \<open>\<^verbatim>\<open>\s+(.*)$\<close> on the rest of the line: the last group\<close>
  "match_tail r = whitespace_tail (length (takeWhile isspace r)) r"

definition match_heading :: "pystr \<Rightarrow> pystr option" where
  \<comment> \<open>\<^verbatim>\<open>re.match(r"^(#{1,6})\s+(.*)$", line)\<close>: group 2. 35 is the hash. With more
      than six hashes the seventh stands where a whitespace is needed.\<close>
  "match_heading line =
     (let hashes = length (takeWhile (\<lambda>c. c = 35) line) in
      if 1 \<le> hashes \<and> hashes \<le> 6 then match_tail (drop hashes line) else None)"

definition match_bullet :: "pystr \<Rightarrow> pystr option" where
  \<comment> \<open>\<^verbatim>\<open>re.match(r"^(\s*[-*])\s+(.*)$", line)\<close>: group 2. 45 is the hyphen, 42 the star.\<close>
  "match_bullet line =
     (case dropWhile isspace line of
        [] \<Rightarrow> None
      | c # r \<Rightarrow> if c = 45 \<or> c = 42 then match_tail r else None)"

definition match_numbered :: "pystr \<Rightarrow> (pystr \<times> pystr) option" where
  \<comment> \<open>\<^verbatim>\<open>re.match(r"^(\s*\d+\.)\s+(.*)$", line)\<close>: groups 1 and 2. 46 is the dot.\<close>
  "match_numbered line =
     (let spaces = takeWhile isspace line;
          digits = takeWhile isdecimal (dropWhile isspace line)
      in case dropWhile isdecimal (dropWhile isspace line) of
           [] \<Rightarrow> None
         | c # r \<Rightarrow>
             if digits \<noteq> [] \<and> c = 46
             then (case match_tail r of
                     None \<Rightarrow> None
                   | Some g \<Rightarrow> Some (spaces @ digits @ [46], g))
             else None)"

section \<open>markdown_to_lines\<close>

definition with_prefix :: "pystr \<Rightarrow> pystr list \<Rightarrow> pystr list" where
  \<comment> \<open>the lines that the loops over \<^verbatim>\<open>enumerate(body_lines)\<close> append\<close>
  "with_prefix prefix body_lines =
     map (\<lambda>(index, chunk). (if index = 0 then prefix else replicate (length prefix) 32) @ chunk)
       (enumerate 0 body_lines)"

definition format_line ::
  "(pystr \<Rightarrow> pystr) \<Rightarrow> pystr list \<times> bool \<Rightarrow> pystr \<Rightarrow> py_error + (pystr list \<times> bool)" where
  \<comment> \<open>the body of the loop over the raw lines, on the state \<^verbatim>\<open>lines\<close> and
      \<^verbatim>\<open>in_code_block\<close>. The first argument is \<^verbatim>\<open>str.upper\<close>, whose table the Unicode
      database holds.\<close>
  "format_line upper state raw =
     (case state of (lines, in_code_block) \<Rightarrow>
      let line = rstrip raw; stripped = strip line in
      if startswith stripped (str ''```'') then Inr (lines @ [[]], \<not> in_code_block)
      else if in_code_block then
        (case wrap_text line (MAX_CHARS_PER_LINE - 4) of
           Inl e \<Rightarrow> Inl e
         | Inr code \<Rightarrow>
             Inr (lines @ map (\<lambda>wrapped. if wrapped \<noteq> [] then str ''    '' @ wrapped else []) code,
                  in_code_block))
      else if stripped = [] then Inr (lines @ [[]], in_code_block)
      else case match_heading line of
        Some heading2 \<Rightarrow>
          (let title = upper (strip heading2);
               lines1 = (if lines \<noteq> [] \<and> last lines \<noteq> [] then lines @ [[]] else lines)
           in case wrap_text title MAX_CHARS_PER_LINE of
                Inl e \<Rightarrow> Inl e
              | Inr title_lines \<Rightarrow> Inr (lines1 @ title_lines @ [[]], in_code_block))
      | None \<Rightarrow>
      (case match_bullet line of
        Some bullet2 \<Rightarrow>
          (let body = strip bullet2; prefix = str ''- '' in
           case wrap_text body (MAX_CHARS_PER_LINE - int (length prefix)) of
             Inl e \<Rightarrow> Inl e
           | Inr body_lines \<Rightarrow> Inr (lines @ with_prefix prefix body_lines, in_code_block))
      | None \<Rightarrow>
      (case match_numbered line of
        Some (numbered1, numbered2) \<Rightarrow>
          (let prefix = numbered1 @ str '' ''; body = strip numbered2 in
           case wrap_text body (MAX_CHARS_PER_LINE - int (length prefix)) of
             Inl e \<Rightarrow> Inl e
           | Inr body_lines \<Rightarrow> Inr (lines @ with_prefix prefix body_lines, in_code_block))
      | None \<Rightarrow>
          (case wrap_text stripped MAX_CHARS_PER_LINE of
             Inl e \<Rightarrow> Inl e
           | Inr wrapped \<Rightarrow> Inr (lines @ wrapped, in_code_block)))))"

fun format_lines ::
  "(pystr \<Rightarrow> pystr) \<Rightarrow> pystr list \<times> bool \<Rightarrow> pystr list \<Rightarrow> py_error + (pystr list \<times> bool)" where
  \<comment> \<open>the loop over \<^verbatim>\<open>markdown.splitlines()\<close>; an exception ends it\<close>
  "format_lines upper state [] = Inr state"
| "format_lines upper state (raw # raws) =
     (case format_line upper state raw of
        Inl e \<Rightarrow> Inl e
      | Inr state' \<Rightarrow> format_lines upper state' raws)"

function pop_blank_lines :: "pystr list \<Rightarrow> pystr list" where
  \<comment> \<open>\<^verbatim>\<open>while lines and lines[-1] == "": lines.pop()\<close>\<close>
  "pop_blank_lines lines =
     (if lines \<noteq> [] \<and> last lines = [] then pop_blank_lines (butlast lines) else lines)"
  by pat_completeness auto
termination
  by (relation "measure length") (auto simp: less_Suc_eq_le intro: diff_less)

declare pop_blank_lines.simps [simp del]

definition markdown_to_lines :: "(pystr \<Rightarrow> pystr) \<Rightarrow> pystr \<Rightarrow> py_error + pystr list" where
  "markdown_to_lines upper markdown =
     (case format_lines upper ([], False) (splitlines markdown) of
        Inl e \<Rightarrow> Inl e
      | Inr (lines, in_code_block) \<Rightarrow> Inr (pop_blank_lines lines))"

definition ascii_upper :: "pystr \<Rightarrow> pystr" where
  \<comment> \<open>what \<^verbatim>\<open>str.upper\<close> does to ASCII text (it is not \<^verbatim>\<open>str.upper\<close> on other text); the
      examples run the formatter with it on documents in ASCII\<close>
  "ascii_upper s = map (\<lambda>c. if 97 \<le> c \<and> c \<le> 122 then c - 32 else c) s"

section \<open>main\<close>

text \<open>
  The program reaches the outside through \<^verbatim>\<open>pathlib\<close> and \<^verbatim>\<open>print\<close>. The record
  \<open>os\<close> holds what the outside answers: each call returns a value or raises, also
  \<^verbatim>\<open>print\<close>, which raises on a text that the encoding of the standard output does not
  have and on a standard output that is closed. What the program does to the outside
  is the list of its effects, in order; a call of \<^verbatim>\<open>write_bytes\<close> or of \<^verbatim>\<open>print\<close> is an
  effect whether it succeeds or not.
\<close>

record os =
  path_str :: "pystr \<Rightarrow> pystr"
  path_exists :: "pystr \<Rightarrow> py_error + bool"
  read_text :: "pystr \<Rightarrow> py_error + pystr"
  write_bytes :: "pystr \<Rightarrow> bytes \<Rightarrow> py_error option"
  print_line :: "pystr \<Rightarrow> py_error option"

datatype effect = Print pystr | Write pystr bytes

definition py_print :: "os \<Rightarrow> pystr \<Rightarrow> effect list \<times> (py_error + unit)" where
  \<comment> \<open>\<^verbatim>\<open>print(text)\<close>\<close>
  "py_print sys text =
     ([Print text], case print_line sys text of Some e \<Rightarrow> Inl e | None \<Rightarrow> Inr ())"

definition generate_pdf :: "os \<Rightarrow> pystr list list \<Rightarrow> pystr \<Rightarrow> effect list \<times> (py_error + unit)" where
  \<comment> \<open>the file is built first; \<^verbatim>\<open>write_bytes\<close> is the last statement\<close>
  "generate_pdf sys pages output_path =
     (case pdf_output pages of
        Inl e \<Rightarrow> ([], Inl e)
      | Inr out \<Rightarrow>
          ([Write output_path out],
           case write_bytes sys output_path out of Some e \<Rightarrow> Inl e | None \<Rightarrow> Inr ()))"

definition usage :: pystr where
  "usage = str ''Usage: python3 scripts/generate_deployment_pdf.py <input.md> <output.pdf>''"

definition main :: "(pystr \<Rightarrow> pystr) \<Rightarrow> os \<Rightarrow> pystr list \<Rightarrow> effect list \<times> (py_error + int)" where
  \<comment> \<open>the effects of a run with \<^verbatim>\<open>sys.argv = argv\<close>, and the exit status or the
      exception that ends it. The first argument is \<^verbatim>\<open>str.upper\<close>.\<close>
  "main upper sys argv =
     (if length argv \<noteq> 3 then
        (case py_print sys usage of
           (effects, Inl e) \<Rightarrow> (effects, Inl e)
         | (effects, Inr u) \<Rightarrow> (effects, Inr 1))
      else
        let input_path = argv ! 1; output_path = argv ! 2 in
        case path_exists sys input_path of
          Inl e \<Rightarrow> ([], Inl e)
        | Inr False \<Rightarrow>
            (case py_print sys (str ''Input file not found: '' @ path_str sys input_path) of
               (effects, Inl e) \<Rightarrow> (effects, Inl e)
             | (effects, Inr u) \<Rightarrow> (effects, Inr 1))
        | Inr True \<Rightarrow>
            (case read_text sys input_path of
               Inl e \<Rightarrow> ([], Inl e)
             | Inr markdown \<Rightarrow>
                 (case markdown_to_lines upper markdown of
                    Inl e \<Rightarrow> ([], Inl e)
                  | Inr lines \<Rightarrow>
                      (case paginate lines (int LINES_PER_PAGE) of
                         Inl e \<Rightarrow> ([], Inl e)
                       | Inr pages \<Rightarrow>
                           (case generate_pdf sys pages output_path of
                              (effects, Inl e) \<Rightarrow> (effects, Inl e)
                            | (effects, Inr u) \<Rightarrow>
                                (case py_print sys
                                        (str ''PDF generated: '' @ path_str sys output_path
                                         @ str '' ('' @ str (decimal (length pages))
                                         @ str '' pages)'') of
                                   (effects', Inl e) \<Rightarrow> (effects @ effects', Inl e)
                                 | (effects', Inr u) \<Rightarrow> (effects @ effects', Inr 0)))))))"

definition file_system :: "(pystr \<rightharpoonup> pystr) \<Rightarrow> os" where
  \<comment> \<open>an outside for the examples: it holds the given text files under plain names,
      which \<^verbatim>\<open>str(Path(p))\<close> leaves as they are, accepts every write and prints every text\<close>
  "file_system files =
     \<lparr>path_str = (\<lambda>p. p),
      path_exists = (\<lambda>p. Inr (files p \<noteq> None)),
      read_text = (\<lambda>p. case files p of None \<Rightarrow> Inl OSError | Some text \<Rightarrow> Inr text),
      write_bytes = (\<lambda>p out. None),
      print_line = (\<lambda>text. None)\<rparr>"

section \<open>Properties of paginate\<close>

lemma concat_chunks:
  "concat (map (\<lambda>k. take n (drop (k * n) L)) [0..<m]) = take (m * n) L"
proof (induction m)
  case 0
  show ?case by simp
next
  case (Suc m)
  have "take (m * n) L @ take n (drop (m * n) L) = take (m * n + n) L"
    by (simp add: take_add)
  with Suc show ?case by (simp add: add.commute)
qed

lemma ceil_cover: "0 < n \<Longrightarrow> (L::nat) \<le> ((L + n - 1) div n) * n"
proof -
  assume n: "0 < n"
  have "(L + n - 1) div n * n + (L + n - 1) mod n = L + n - 1" by simp
  moreover have "(L + n - 1) mod n < n" using n by simp
  ultimately show ?thesis by linarith
qed

lemma ceil_tight: "0 < n \<Longrightarrow> Suc k < ((L + n - 1) div n) \<Longrightarrow> Suc k * n \<le> (L::nat)"
proof -
  assume n: "0 < n" and k: "Suc k < ((L + n - 1) div n)"
  have "Suc (Suc k) \<le> (L + n - 1) div n" using k by simp
  then have "Suc (Suc k) * n \<le> (L + n - 1) div n * n" by (rule mult_le_mono1)
  also have "\<dots> \<le> L + n - 1" by simp
  finally have "Suc k * n + n \<le> L + n - 1" by simp
  then show ?thesis using n by linarith
qed

text \<open>
  C5. For a positive \<open>lines_per_page\<close>, \<open>paginate\<close> never raises. On the empty
  sequence it returns the one page \<open>[""]\<close>. On a non-empty sequence \<open>L\<close> it returns
  a non-empty list of pages, page \<open>i\<close> being the slice of \<open>L\<close> that starts at
  \<open>i * n\<close> and has at most \<open>n\<close> lines (so the pages are consecutive and do not
  overlap); their concatenation is \<open>L\<close>, every page has at most \<open>n\<close> lines, none
  is empty, and every page but the last has exactly \<open>n\<close> lines.
\<close>

theorem paginate_chunks:
  "0 < n \<Longrightarrow>
     paginate [] n = Inr [[[]]] \<and>
     (L \<noteq> [] \<longrightarrow>
        (\<exists>pages. paginate L n = Inr pages \<and> pages \<noteq> [] \<and> concat pages = L \<and>
           (\<forall>i < length pages. pages ! i = take (nat n) (drop (i * nat n) L)) \<and>
           (\<forall>p \<in> set pages. p \<noteq> [] \<and> int (length p) \<le> n) \<and>
           (\<forall>i. Suc i < length pages \<longrightarrow> int (length (pages ! i)) = n)))"
proof (intro conjI impI)
  show "paginate [] n = Inr [[[]]]" by (simp add: paginate_def)
next
  assume n: "0 < n" and L: "L \<noteq> []"
  define m where "m = nat n"
  define k where "k = (length L + m - 1) div m"
  define pages where "pages = map (\<lambda>i. take m (drop (i * m) L)) [0..<k]"
  have m: "0 < m" using n by (simp add: m_def)
  have cover: "length L \<le> k * m" unfolding k_def using m by (rule ceil_cover)
  have len: "length pages = k" by (simp add: pages_def)
  have nth: "pages ! i = take m (drop (i * m) L)" if "i < k" for i
    using that by (simp add: pages_def)
  have eq: "paginate L n = Inr pages"
    using n L by (simp add: paginate_def range0_def pages_def k_def m_def comp_def)
  have kpos: "0 < k"
  proof (rule ccontr)
    assume "\<not> 0 < k"
    with cover have "length L = 0" by simp
    with L show False by simp
  qed
  have full: "length (pages ! i) = m" if "Suc i < k" for i
  proof -
    have "Suc i * m \<le> length L" using m that unfolding k_def by (rule ceil_tight)
    then have "m \<le> length L - i * m" by simp
    with that show ?thesis by (simp add: nth)
  qed
  have nonempty: "pages ! i \<noteq> []" if "i < k" for i
  proof (cases "Suc i < k")
    case True
    with full [of i] m show ?thesis by auto
  next
    case False
    with that have i: "k = Suc i" by simp
    have "k * m \<le> length L + m - 1" by (simp add: k_def)
    with i have "i * m + m \<le> length L + m - 1" by simp
    moreover have "0 < length L" using L by simp
    ultimately have "i * m < length L" by linarith
    then show ?thesis using m that by (simp add: nth)
  qed
  have conc: "concat pages = L"
    using cover by (simp add: pages_def concat_chunks)
  have bound: "p \<noteq> [] \<and> int (length p) \<le> n" if "p \<in> set pages" for p
  proof -
    from that obtain i where i: "i < k" and p: "p = pages ! i"
      by (auto simp: in_set_conv_nth len)
    have "length p \<le> m" using i by (simp add: p nth)
    then have "int (length p) \<le> n" using n by (simp add: m_def)
    with nonempty [OF i] p show ?thesis by simp
  qed
  show "\<exists>pages. paginate L n = Inr pages \<and> pages \<noteq> [] \<and> concat pages = L \<and>
           (\<forall>i < length pages. pages ! i = take (nat n) (drop (i * nat n) L)) \<and>
           (\<forall>p \<in> set pages. p \<noteq> [] \<and> int (length p) \<le> n) \<and>
           (\<forall>i. Suc i < length pages \<longrightarrow> int (length (pages ! i)) = n)"
  proof (intro exI [of _ pages] conjI allI impI ballI)
    show "paginate L n = Inr pages" by (rule eq)
    show "pages \<noteq> []" using kpos len by auto
    show "concat pages = L" by (rule conc)
    show "pages ! i = take (nat n) (drop (i * nat n) L)" if "i < length pages" for i
      using that nth [of i] by (simp add: len m_def)
    show "p \<noteq> []" if "p \<in> set pages" for p using bound [OF that] by simp
    show "int (length p) \<le> n" if "p \<in> set pages" for p using bound [OF that] by simp
    show "int (length (pages ! i)) = n" if "Suc i < length pages" for i
      using that full [of i] n by (simp add: len m_def)
  qed
qed

theorem paginate_chunks_witness:
  "(0::int) < 2 \<and> [str ''a'', str ''b'', str ''c''] \<noteq> [] \<and>
   paginate [str ''a'', str ''b'', str ''c''] 2 = Inr [[str ''a'', str ''b''], [str ''c'']] \<and>
   paginate [] 2 = Inr [[[]]]"
  using paginate_chunks [of 2 "[str ''a'', str ''b'', str ''c'']"]
  by (simp add: paginate_def range0_def)

section \<open>Properties of pdf_escape\<close>

lemma replace1_Cons:
  "replace1 old new (c # cs) = (if c = old then new else [c]) @ replace1 old new cs"
  by (simp add: replace1_def)

lemma replace1_append:
  "replace1 old new (xs @ ys) = replace1 old new xs @ replace1 old new ys"
  by (simp add: replace1_def)

lemma replace1_Nil: "replace1 old new [] = []"
  by (simp add: replace1_def)

lemma pdf_escape_Cons: "pdf_escape (c # cs) = escape_char c @ pdf_escape cs"
  by (simp add: pdf_escape_def escape_char_def replace1_Cons replace1_append replace1_Nil)

lemma pdf_escape_chars: "pdf_escape s = concat (map escape_char s)"
proof (induction s)
  case Nil
  show ?case by (simp add: pdf_escape_def replace1_Nil)
next
  case (Cons c cs)
  then show ?case by (simp add: pdf_escape_Cons)
qed

lemma pdf_unescape_plain: "c \<noteq> 92 \<Longrightarrow> pdf_unescape (c # cs) = c # pdf_unescape cs"
  by (cases cs) simp_all

lemma pdf_unescape_escape: "pdf_unescape (pdf_escape s) = s"
proof (induction s)
  case Nil
  show ?case by (simp add: pdf_escape_def replace1_Nil)
next
  case (Cons c cs)
  show ?case
  proof (cases "c = 92 \<or> c = 40 \<or> c = 41")
    case True
    then show ?thesis using Cons by (auto simp: pdf_escape_Cons escape_char_def)
  next
    case False
    then show ?thesis using Cons by (simp add: pdf_escape_Cons escape_char_def pdf_unescape_plain)
  qed
qed

text \<open>
  C7. \<open>pdf_escape\<close> replaces the backslashes first and the two parentheses
  afterwards. The result is the character-by-character escape: each backslash
  becomes two backslashes, each parenthesis gets exactly one backslash in front
  (the backslashes that the parenthesis escapes introduce are not escaped again),
  and every other character is kept. The original string is recovered from the
  escaped one by \<open>pdf_unescape\<close>, so \<open>pdf_escape\<close> is injective.
\<close>

theorem pdf_escape_injective:
  "pdf_escape s = concat (map escape_char s) \<and>
   pdf_unescape (pdf_escape s) = s \<and>
   (pdf_escape s = pdf_escape t \<longrightarrow> s = t)"
proof (intro conjI impI)
  show "pdf_escape s = concat (map escape_char s)" by (rule pdf_escape_chars)
  show "pdf_unescape (pdf_escape s) = s" by (rule pdf_unescape_escape)
  assume "pdf_escape s = pdf_escape t"
  then have "pdf_unescape (pdf_escape s) = pdf_unescape (pdf_escape t)" by simp
  then show "s = t" by (simp only: pdf_unescape_escape)
qed

theorem pdf_escape_injective_witness:
  "pdf_escape [97, 92, 40, 98, 41] = [97, 92, 92, 92, 40, 98, 92, 41] \<and>
   pdf_unescape [97, 92, 92, 92, 40, 98, 92, 41] = [97, 92, 40, 98, 41] \<and>
   pdf_escape [97, 92, 40, 98, 41] = pdf_escape (97 # 92 # [40, 98, 41])"
  using pdf_escape_injective [of "[97, 92, 40, 98, 41]" "97 # 92 # [40, 98, 41]"]
  by (simp add: escape_char_def)

section \<open>Properties of the PDF emitter\<close>

lemma str_latin1: "c \<in> set (str s) \<Longrightarrow> c < 256"
  by (auto simp: str_def)

lemma set_replace1: "set (replace1 old new text) \<subseteq> set text \<union> set new"
  by (auto simp: replace1_def split: if_splits)

lemma set_pdf_escape: "set (pdf_escape text) \<subseteq> set text \<union> {92, 40, 41}"
  by (auto simp: pdf_escape_chars escape_char_def split: if_splits)

lemma set_to_latin1: "c \<in> set (to_latin1 v) \<Longrightarrow> c < 256"
  by (auto simp: to_latin1_def)

lemma set_py_join: "set (py_join sep xs) \<subseteq> set sep \<union> \<Union> (set ` set xs)"
  by (induction sep xs rule: py_join.induct) auto

lemma escaped_latin1: "c \<in> set (pdf_escape (to_latin1 line)) \<Longrightarrow> c < 256"
  using set_pdf_escape [of "to_latin1 line"] set_to_latin1 [of c line] by auto

lemma page_commands_latin1: "cmd \<in> set (page_commands page_lines) \<Longrightarrow> c \<in> set cmd \<Longrightarrow> c < 256"
  unfolding page_commands_def using escaped_latin1 str_latin1
  by (auto)

lemma build_page_stream_total:
  "build_page_stream page_lines = Inr (map char_of (py_join [10] (page_commands page_lines) @ [10]))"
proof -
  have "\<forall>c \<in> set (py_join [10] (page_commands page_lines) @ [10]). c < 256"
    using set_py_join [of "[10]" "page_commands page_lines"] page_commands_latin1 [of _ page_lines]
    by fastforce
  then show ?thesis by (simp add: build_page_stream_def encode_latin1_def)
qed

lemma add_pages_result:
  "\<exists>objects'. add_pages pages objects page_ids m =
       Inr (objects', page_ids @ map (\<lambda>k. m + 1 + 2 * k) [0..<length pages], m + 2 * length pages)
     \<and> (\<forall>i. i \<le> m \<longrightarrow> objects' i = objects i)
     \<and> (\<forall>k < length pages.
           objects' (m + 1 + 2 * k) = Some (page_object (m + 2 + 2 * k)) \<and>
           (\<exists>st. build_page_stream (pages ! k) = Inr st \<and>
                 objects' (m + 2 + 2 * k) = Some (content_object st)))"
proof (induction pages arbitrary: objects page_ids m)
  case Nil
  show ?case by simp
next
  case (Cons page pages)
  obtain st where st: "build_page_stream page = Inr st"
    using build_page_stream_total by blast
  define objects2 where
    "objects2 = objects(m + 2 \<mapsto> content_object st, m + 1 \<mapsto> page_object (m + 2))"
  from Cons.IH [of objects2 "page_ids @ [m + 1]" "m + 2"]
  obtain objects' where
    r: "add_pages pages objects2 (page_ids @ [m + 1]) (m + 2) =
          Inr (objects', (page_ids @ [m + 1]) @ map (\<lambda>k. m + 2 + 1 + 2 * k) [0..<length pages],
               m + 2 + 2 * length pages)"
    and keep: "\<And>i. i \<le> m + 2 \<Longrightarrow> objects' i = objects2 i"
    and new: "\<And>k. k < length pages \<Longrightarrow>
           objects' (m + 2 + 1 + 2 * k) = Some (page_object (m + 2 + 2 + 2 * k)) \<and>
           (\<exists>st. build_page_stream (pages ! k) = Inr st \<and>
                 objects' (m + 2 + 2 + 2 * k) = Some (content_object st))"
    by blast
  have ids: "(page_ids @ [m + 1]) @ map (\<lambda>k. m + 2 + 1 + 2 * k) [0..<length pages]
             = page_ids @ map (\<lambda>k. m + 1 + 2 * k) [0..<length (page # pages)]"
    by (simp add: map_upt_Suc del: upt_Suc)
  have eq: "add_pages (page # pages) objects page_ids m =
        Inr (objects', page_ids @ map (\<lambda>k. m + 1 + 2 * k) [0..<length (page # pages)],
             m + 2 * length (page # pages))"
    using r ids by (simp add: st objects2_def)
  have old: "objects' i = objects i" if "i \<le> m" for i
    using keep [of i] that by (simp add: objects2_def)
  have pg: "objects' (m + 1 + 2 * k) = Some (page_object (m + 2 + 2 * k)) \<and>
           (\<exists>st. build_page_stream ((page # pages) ! k) = Inr st \<and>
                 objects' (m + 2 + 2 * k) = Some (content_object st))"
    if "k < length (page # pages)" for k
  proof (cases k)
    case 0
    then show ?thesis using keep [of "m + 1"] keep [of "m + 2"] st by (simp add: objects2_def)
  next
    case (Suc j)
    then show ?thesis using new [of j] that by (simp add: add.commute add.left_commute)
  qed
  show ?case using eq old pg by blast
qed

lemma write_objects_result:
  "\<forall>i \<in> set ids. i < length offsets \<and> objects i \<noteq> None \<Longrightarrow> distinct ids \<Longrightarrow>
   \<exists>offsets'.
     write_objects objects ids out offsets =
       Inr (out @ concat (map (\<lambda>i. object_entry i (the (objects i))) ids), offsets') \<and>
     length offsets' = length offsets \<and>
     (\<forall>j. j \<notin> set ids \<longrightarrow> offsets' ! j = offsets ! j) \<and>
     (\<forall>k < length ids. offsets' ! (ids ! k) =
        length (out @ concat (map (\<lambda>i. object_entry i (the (objects i))) (take k ids))))"
proof (induction ids arbitrary: out offsets)
  case Nil
  show ?case by simp
next
  case (Cons a ids)
  let ?E = "\<lambda>i. object_entry i (the (objects i))"
  from Cons.prems obtain body where body: "objects a = Some body" and a: "a < length offsets"
    by auto
  have pre: "\<forall>i \<in> set ids. i < length (offsets[a := length out]) \<and> objects i \<noteq> None"
    using Cons.prems by simp
  have dist: "distinct ids" and notin: "a \<notin> set ids" using Cons.prems by simp_all
  from Cons.IH [OF pre dist, of "out @ object_entry a body"]
  obtain offsets' where
    r: "write_objects objects ids (out @ object_entry a body) (offsets[a := length out]) =
         Inr ((out @ object_entry a body) @ concat (map ?E ids), offsets')"
    and len: "length offsets' = length (offsets[a := length out])"
    and keep: "\<And>j. j \<notin> set ids \<Longrightarrow> offsets' ! j = (offsets[a := length out]) ! j"
    and pos: "\<And>k. k < length ids \<Longrightarrow> offsets' ! (ids ! k) =
        length ((out @ object_entry a body) @ concat (map ?E (take k ids)))"
    by blast
  have eq: "write_objects objects (a # ids) out offsets =
       Inr (out @ concat (map ?E (a # ids)), offsets')"
    using r a body by simp
  have len': "length offsets' = length offsets" using len by simp
  have keep': "offsets' ! j = offsets ! j" if "j \<notin> set (a # ids)" for j
    using keep [of j] that by simp
  have pos': "offsets' ! ((a # ids) ! k) = length (out @ concat (map ?E (take k (a # ids))))"
    if "k < length (a # ids)" for k
  proof (cases k)
    case 0
    then show ?thesis using keep [OF notin] a by simp
  next
    case (Suc j)
    then show ?thesis using pos [of j] that body by simp
  qed
  show ?case using eq len' keep' pos' by blast
qed

lemma write_xref_result:
  "\<forall>i \<in> set ids. i < length offsets \<Longrightarrow>
   write_xref offsets ids out = Inr (out @ concat (map (\<lambda>i. xref_entry (offsets ! i)) ids))"
  by (induction ids arbitrary: out) auto

lemma pdf_objects_result:
  "\<exists>objects. pdf_objects pages = Inr (objects, 2 * length pages + 3)
     \<and> objects 1 = Some catalog_object
     \<and> objects 2 = Some (pages_object (map (\<lambda>k. 4 + 2 * k) [0..<length pages]))
     \<and> objects 3 = Some font_object
     \<and> (\<forall>k < length pages.
           objects (4 + 2 * k) = Some (page_object (5 + 2 * k)) \<and>
           (\<exists>st. build_page_stream (pages ! k) = Inr st \<and>
                 objects (5 + 2 * k) = Some (content_object st)))"
proof -
  from add_pages_result [of pages "[3 \<mapsto> font_object]" "[]" 3]
  obtain objects' where
    r: "add_pages pages [3 \<mapsto> font_object] [] 3 =
          Inr (objects', map (\<lambda>k. 3 + 1 + 2 * k) [0..<length pages], 3 + 2 * length pages)"
    and keep: "\<And>i. i \<le> 3 \<Longrightarrow> objects' i = [3 \<mapsto> font_object] i"
    and new: "\<And>k. k < length pages \<Longrightarrow>
           objects' (3 + 1 + 2 * k) = Some (page_object (3 + 2 + 2 * k)) \<and>
           (\<exists>st. build_page_stream (pages ! k) = Inr st \<and>
                 objects' (3 + 2 + 2 * k) = Some (content_object st))"
    by auto
  define objects where
    "objects = objects'(2 \<mapsto> pages_object (map (\<lambda>k. 4 + 2 * k) [0..<length pages]),
                        1 \<mapsto> catalog_object)"
  have "pdf_objects pages = Inr (objects, 2 * length pages + 3)"
    using r by (simp add: pdf_objects_def objects_def)
  moreover have "objects 1 = Some catalog_object" by (simp add: objects_def)
  moreover have "objects 2 = Some (pages_object (map (\<lambda>k. 4 + 2 * k) [0..<length pages]))"
    by (simp add: objects_def)
  moreover have "objects 3 = Some font_object" using keep [of 3] by (simp add: objects_def)
  moreover have "objects (4 + 2 * k) = Some (page_object (5 + 2 * k)) \<and>
           (\<exists>st. build_page_stream (pages ! k) = Inr st \<and>
                 objects (5 + 2 * k) = Some (content_object st))" if "k < length pages" for k
    using new [OF that] by (simp add: objects_def)
  ultimately show ?thesis by blast
qed

lemma objects_defined:
  assumes "objects (1::nat) \<noteq> None" "objects 2 \<noteq> None" "objects 3 \<noteq> None"
    and "\<forall>k<n. objects (4 + 2 * k) \<noteq> None \<and> objects (5 + 2 * k) \<noteq> None"
    and "1 \<le> i" "i \<le> 2 * n + 3"
  shows "objects i \<noteq> None"
proof (cases "i \<le> 3")
  case True
  with assms(5) have "i = 1 \<or> i = 2 \<or> i = 3" by auto
  with assms(1-3) show ?thesis by auto
next
  case False
  define k where "k = (i - 4) div 2"
  have k: "k < n" using False assms(6) by (auto simp: k_def)
  have "i = 4 + 2 * k \<or> i = 5 + 2 * k" using False unfolding k_def by presburger
  with assms(4) k show ?thesis by auto
qed

lemma upt_split3: "a \<le> i \<Longrightarrow> i < b \<Longrightarrow> [a..<b] = [a..<i] @ i # [Suc i..<b]"
  by (metis le_add_diff_inverse less_imp_le_nat upt_add_eq_append upt_conv_Cons)

lemma pdf_body_result:
  "\<exists>objects offsets.
     pdf_objects pages = Inr (objects, 2 * length pages + 3) \<and>
     (\<forall>i. 1 \<le> i \<and> i \<le> 2 * length pages + 3 \<longrightarrow> objects i \<noteq> None) \<and>
     pdf_body pages =
       Inr (pdf_header @ concat (map (\<lambda>i. object_entry i (the (objects i)))
                                  [1 ..< 2 * length pages + 4]),
            offsets, 2 * length pages + 3) \<and>
     length offsets = 2 * length pages + 4 \<and>
     (\<forall>i. 1 \<le> i \<and> i \<le> 2 * length pages + 3 \<longrightarrow>
        offsets ! i = length (pdf_header @ concat (map (\<lambda>i. object_entry i (the (objects i))) [1 ..< i])))"
proof -
  let ?n = "length pages"
  from pdf_objects_result [of pages] obtain objects where
    o: "pdf_objects pages = Inr (objects, 2 * ?n + 3)"
    and o1: "objects 1 = Some catalog_object"
    and o2: "objects 2 = Some (pages_object (map (\<lambda>k. 4 + 2 * k) [0..<?n]))"
    and o3: "objects 3 = Some font_object"
    and op: "\<forall>k < ?n. objects (4 + 2 * k) = Some (page_object (5 + 2 * k)) \<and>
           (\<exists>st. build_page_stream (pages ! k) = Inr st \<and>
                 objects (5 + 2 * k) = Some (content_object st))"
    by blast
  have def: "objects i \<noteq> None" if "1 \<le> i" "i \<le> 2 * ?n + 3" for i
  proof (rule objects_defined [of objects ?n i])
    show "\<forall>k<?n. objects (4 + 2 * k) \<noteq> None \<and> objects (5 + 2 * k) \<noteq> None"
      using op by auto
  qed (use o1 o2 o3 that in auto)
  let ?ids = "[1 ..< 2 * ?n + 3 + 1]"
  let ?E = "\<lambda>i. object_entry i (the (objects i))"
  have pre: "\<forall>i \<in> set ?ids. i < length (replicate (2 * ?n + 3 + 1) (0::nat)) \<and> objects i \<noteq> None"
    using def by auto
  from write_objects_result [OF pre, of pdf_header]
  obtain offsets where
    w: "write_objects objects ?ids pdf_header (replicate (2 * ?n + 3 + 1) 0) =
          Inr (pdf_header @ concat (map ?E ?ids), offsets)"
    and len: "length offsets = length (replicate (2 * ?n + 3 + 1) (0::nat))"
    and pos: "\<And>k. k < length ?ids \<Longrightarrow> offsets ! (?ids ! k) =
        length (pdf_header @ concat (map ?E (take k ?ids)))"
    by auto
  have body: "pdf_body pages = Inr (pdf_header @ concat (map ?E [1 ..< 2 * ?n + 4]), offsets, 2 * ?n + 3)"
  proof -
    have e: "2 * ?n + 4 = 2 * ?n + 3 + 1" by simp
    show ?thesis unfolding e by (simp only: pdf_body_def o w sum.case prod.case)
  qed
  have offs: "offsets ! i = length (pdf_header @ concat (map ?E [1 ..< i]))"
    if "1 \<le> i" "i \<le> 2 * ?n + 3" for i
  proof -
    have k: "i - 1 < length ?ids" using that by simp
    have nth: "?ids ! (i - 1) = i" using that by (simp add: nth_upt)
    have tk: "take (i - 1) ?ids = [1 ..< i]" using that by (simp add: take_upt)
    from pos [OF k] show ?thesis by (simp only: nth tk)
  qed
  show ?thesis using o def body len offs by (intro exI [of _ objects] exI [of _ offsets]) simp
qed

text \<open>
  C1 as stated fails: the file for the single page \<open>[""]\<close> is the one below, and its
  trailer names \<^verbatim>\<open>/Size 6\<close>, whereas two times the number of pages plus three is 5.
\<close>

theorem pdf_size_counterexample:
  "pdf_output [[[]]] = Inr
     (''%PDF-1.4'' @ [LF]
      @ ''%'' @ [CHR 0xE2, CHR 0xE3, CHR 0xCF, CHR 0xD3] @ [LF]
      @ ''1 0 obj'' @ [LF]
      @ ''<< /Type /Catalog /Pages 2 0 R >>'' @ [LF]
      @ ''endobj'' @ [LF]
      @ ''2 0 obj'' @ [LF]
      @ ''<< /Type /Pages /Kids [ 4 0 R ] /Count 1 >>'' @ [LF]
      @ ''endobj'' @ [LF]
      @ ''3 0 obj'' @ [LF]
      @ ''<< /Type /Font /Subtype /Type1 /BaseFont /Helvetica >>'' @ [LF]
      @ ''endobj'' @ [LF]
      @ ''4 0 obj'' @ [LF]
      @ ''<< /Type /Page /Parent 2 0 R /MediaBox [0 0 595 842] /Resources << /Font << /F1 3 0 R >> >> /Contents 5 0 R >>'' @ [LF]
      @ ''endobj'' @ [LF]
      @ ''5 0 obj'' @ [LF]
      @ ''<< /Length 49 >>'' @ [LF]
      @ ''stream'' @ [LF]
      @ ''BT'' @ [LF]
      @ ''/F1 10 Tf'' @ [LF]
      @ ''1 0 0 1 50 792 Tm'' @ [LF]
      @ ''14 TL'' @ [LF]
      @ ''() Tj'' @ [LF]
      @ ''T*'' @ [LF]
      @ ''ET'' @ [LF]
      @ ''endstream'' @ [LF]
      @ ''endobj'' @ [LF]
      @ ''xref'' @ [LF]
      @ ''0 6'' @ [LF]
      @ ''0000000000 65535 f '' @ [LF]
      @ ''0000000015 00000 n '' @ [LF]
      @ ''0000000064 00000 n '' @ [LF]
      @ ''0000000123 00000 n '' @ [LF]
      @ ''0000000193 00000 n '' @ [LF]
      @ ''0000000319 00000 n '' @ [LF]
      @ ''trailer'' @ [LF]
      @ ''<< /Size 6 /Root 1 0 R >>'' @ [LF]
      @ ''startxref'' @ [LF]
      @ ''417'' @ [LF]
      @ ''%%EOF'' @ [LF])
   \<and> 2 * length [[[]::pystr]] + 3 = 5"
  by code_simp

lemma decimal_nonempty: "decimal n \<noteq> []"
  by (subst decimal.simps) simp

lemma decimal_length_le: "0 < k \<Longrightarrow> n < 10 ^ k \<Longrightarrow> length (decimal n) \<le> k"
proof (induction n arbitrary: k rule: decimal.induct)
  case (1 n)
  show ?case
  proof (cases "n < 10")
    case True
    then show ?thesis using "1.prems" by (subst decimal.simps) simp
  next
    case False
    obtain j where j: "k = Suc j" using "1.prems"(1) by (cases k) auto
    have "j \<noteq> 0" using False "1.prems"(2) j by (cases j) auto
    moreover have "n div 10 < 10 ^ j" using "1.prems"(2) j by (simp add: less_mult_imp_div_less)
    ultimately have "length (decimal (n div 10)) \<le> j" using "1.IH" [OF False, of j] by simp
    then show ?thesis using False j by (subst decimal.simps) simp
  qed
qed

lemma decimal_length_gt: "10 ^ k \<le> n \<Longrightarrow> k < length (decimal n)"
proof (induction n arbitrary: k rule: decimal.induct)
  case (1 n)
  show ?case
  proof (cases "n < 10")
    case True
    have "k = 0"
    proof (cases k)
      case (Suc j)
      have "(1::nat) \<le> 10 ^ j" by simp
      then have "(10::nat) \<le> 10 ^ Suc j" by simp
      also have "\<dots> \<le> n" using "1.prems" Suc by simp
      finally show ?thesis using True by simp
    qed simp
    then show ?thesis using True by (subst decimal.simps) simp
  next
    case False
    show ?thesis
    proof (cases k)
      case 0
      then show ?thesis using decimal_nonempty [of n] by (cases "decimal n") auto
    next
      case (Suc j)
      have "10 ^ j \<le> n div 10" using "1.prems" Suc by simp
      then have "j < length (decimal (n div 10))" using "1.IH" [OF False] by simp
      then show ?thesis using False Suc by (subst decimal.simps) simp
    qed
  qed
qed

lemma zfill10_length: "length (zfill10 d) = max 10 (length d)"
  by (simp add: zfill10_def)

lemma pdf_output_result:
  "\<exists>objects offsets body.
     pdf_objects pages = Inr (objects, 2 * length pages + 3) \<and>
     (\<forall>i. 1 \<le> i \<and> i \<le> 2 * length pages + 3 \<longrightarrow> objects i \<noteq> None) \<and>
     body = pdf_header @ concat (map (\<lambda>i. object_entry i (the (objects i)))
                                  [1 ..< 2 * length pages + 4]) \<and>
     pdf_body pages = Inr (body, offsets, 2 * length pages + 3) \<and>
     length offsets = 2 * length pages + 4 \<and>
     (\<forall>i. 1 \<le> i \<and> i \<le> 2 * length pages + 3 \<longrightarrow>
        offsets ! i = length (pdf_header @ concat (map (\<lambda>i. object_entry i (the (objects i))) [1 ..< i]))) \<and>
     pdf_output pages =
       Inr (body @ xref_head (2 * length pages + 3)
            @ concat (map (\<lambda>i. xref_entry (offsets ! i)) [1 ..< 2 * length pages + 4])
            @ trailer (2 * length pages + 3) (length body))"
proof -
  let ?n = "length pages"
  let ?m = "2 * ?n + 3"
  from pdf_body_result [of pages] obtain objects offsets where
    o: "pdf_objects pages = Inr (objects, ?m)"
    and d: "\<forall>i. 1 \<le> i \<and> i \<le> ?m \<longrightarrow> objects i \<noteq> None"
    and b: "pdf_body pages =
       Inr (pdf_header @ concat (map (\<lambda>i. object_entry i (the (objects i))) [1 ..< 2 * ?n + 4]),
            offsets, ?m)"
    and l: "length offsets = 2 * ?n + 4"
    and p: "\<forall>i. 1 \<le> i \<and> i \<le> ?m \<longrightarrow>
        offsets ! i = length (pdf_header @ concat (map (\<lambda>i. object_entry i (the (objects i))) [1 ..< i]))"
    by blast
  define body where
    "body = pdf_header @ concat (map (\<lambda>i. object_entry i (the (objects i))) [1 ..< 2 * ?n + 4])"
  have e: "2 * ?n + 4 = ?m + 1" by simp
  have x: "write_xref offsets [1 ..< ?m + 1] out =
             Inr (out @ concat (map (\<lambda>i. xref_entry (offsets ! i)) [1 ..< ?m + 1]))" for out
    by (rule write_xref_result) (simp add: l)
  have out: "pdf_output pages =
       Inr (body @ xref_head ?m @ concat (map (\<lambda>i. xref_entry (offsets ! i)) [1 ..< 2 * ?n + 4])
            @ trailer ?m (length body))"
    using b unfolding body_def e
    by (simp only: pdf_output_def sum.case prod.case Let_def x append_assoc)
  show ?thesis using o d b l p out body_def by blast
qed

lemma take_drop_prefix: "n = length pre \<Longrightarrow> take (length x) (drop n (pre @ x @ post)) = x"
  by simp

text \<open>
  C6 (amended). For every page sequence the file is the objects, then the keyword
  \<^verbatim>\<open>xref\<close> with the entry of the free object 0, then for each object ID \<open>i\<close> from 1
  to the largest ID, in order, an entry that holds the offset recorded for \<open>i\<close>,
  padded with zeros to at least ten digits, and then the trailer, whose
  \<^verbatim>\<open>startxref\<close> value is the length of the part before the keyword \<^verbatim>\<open>xref\<close>. The
  file sliced at the offset recorded for \<open>i\<close> begins with \<open>i\<close> in decimal and
  \<^verbatim>\<open> 0 obj\<close>. The offset has exactly ten digits when it is below \<open>10 ^ 10\<close>; a larger
  offset is written with all its digits.
\<close>

theorem xref_offsets:
  "\<exists>body offsets out.
     pdf_body pages = Inr (body, offsets, 2 * length pages + 3) \<and>
     pdf_output pages = Inr out \<and>
     out = body
       @ ''xref'' @ [LF] @ ''0 '' @ decimal (2 * length pages + 4) @ [LF]
       @ ''0000000000 65535 f '' @ [LF]
       @ concat (map (\<lambda>i. zfill10 (decimal (offsets ! i)) @ '' 00000 n '' @ [LF])
                   [1 ..< 2 * length pages + 4])
       @ ''trailer'' @ [LF]
       @ ''<< /Size '' @ decimal (2 * length pages + 4) @ '' /Root 1 0 R >>'' @ [LF]
       @ ''startxref'' @ [LF] @ decimal (length body) @ [LF] @ ''%%EOF'' @ [LF] \<and>
     (\<forall>i. 1 \<le> i \<and> i \<le> 2 * length pages + 3 \<longrightarrow>
        take (length (decimal i @ '' 0 obj'')) (drop (offsets ! i) out) = decimal i @ '' 0 obj'' \<and>
        length (zfill10 (decimal (offsets ! i))) = max 10 (length (decimal (offsets ! i))) \<and>
        (offsets ! i < 10 ^ 10 \<longrightarrow> length (zfill10 (decimal (offsets ! i))) = 10))"
proof -
  let ?n = "length pages"
  let ?m = "2 * ?n + 3"
  from pdf_output_result [of pages] obtain objects offsets body where
    body: "body = pdf_header @ concat (map (\<lambda>i. object_entry i (the (objects i))) [1 ..< 2 * ?n + 4])"
    and b: "pdf_body pages = Inr (body, offsets, ?m)"
    and p: "\<And>i. 1 \<le> i \<and> i \<le> ?m \<Longrightarrow>
        offsets ! i = length (pdf_header @ concat (map (\<lambda>i. object_entry i (the (objects i))) [1 ..< i]))"
    and o: "pdf_output pages =
       Inr (body @ xref_head ?m @ concat (map (\<lambda>i. xref_entry (offsets ! i)) [1 ..< 2 * ?n + 4])
            @ trailer ?m (length body))"
    by blast
  let ?E = "\<lambda>i. object_entry i (the (objects i))"
  define out where
    "out = body @ xref_head ?m @ concat (map (\<lambda>i. xref_entry (offsets ! i)) [1 ..< 2 * ?n + 4])
            @ trailer ?m (length body)"
  have shape: "out = body
       @ ''xref'' @ [LF] @ ''0 '' @ decimal (2 * ?n + 4) @ [LF]
       @ ''0000000000 65535 f '' @ [LF]
       @ concat (map (\<lambda>i. zfill10 (decimal (offsets ! i)) @ '' 00000 n '' @ [LF]) [1 ..< 2 * ?n + 4])
       @ ''trailer'' @ [LF]
       @ ''<< /Size '' @ decimal (2 * ?n + 4) @ '' /Root 1 0 R >>'' @ [LF]
       @ ''startxref'' @ [LF] @ decimal (length body) @ [LF] @ ''%%EOF'' @ [LF]"
    by (simp add: out_def xref_head_def xref_entry_def trailer_def add.commute)
  have slice: "take (length (decimal i @ '' 0 obj'')) (drop (offsets ! i) out) = decimal i @ '' 0 obj''"
    if i: "1 \<le> i \<and> i \<le> ?m" for i
  proof -
    have split: "[1 ..< 2 * ?n + 4] = [1 ..< i] @ i # [Suc i ..< 2 * ?n + 4]"
      using i by (intro upt_split3) auto
    define pre where "pre = pdf_header @ concat (map ?E [1 ..< i])"
    define post where "post = ([LF] @ the (objects i) @ [LF] @ ''endobj'' @ [LF])
        @ concat (map ?E [Suc i ..< 2 * ?n + 4])
        @ xref_head ?m @ concat (map (\<lambda>i. xref_entry (offsets ! i)) [1 ..< 2 * ?n + 4])
        @ trailer ?m (length body)"
    have "out = pre @ (decimal i @ '' 0 obj'') @ post"
      unfolding out_def body pre_def post_def
      by (subst split) (simp add: object_entry_def)
    moreover have "offsets ! i = length pre" using p [OF i] by (simp add: pre_def)
    ultimately show ?thesis using take_drop_prefix by blast
  qed
  have ten: "length (zfill10 (decimal k)) = 10" if "k < 10 ^ 10" for k
  proof -
    have "length (decimal k) \<le> 10" using that by (intro decimal_length_le) simp_all
    then show ?thesis by (simp add: zfill10_length)
  qed
  show ?thesis
    using b o shape slice ten zfill10_length unfolding out_def [symmetric]
    by (intro exI [of _ body] exI [of _ offsets] exI [of _ out]) simp
qed

text \<open>
  C1 (amended). For every page sequence the emitter returns a file. With \<open>n\<close> pages the
  largest object ID is \<open>2 * n + 3\<close>, and the \<^verbatim>\<open>/Size\<close> of the trailer is that ID plus
  one, \<open>2 * n + 4\<close>: it counts the free object 0 with the \<open>2 * n + 3\<close> objects that are
  written. Object 2, the Pages object, is written in the file; its \<^verbatim>\<open>/Kids\<close> array holds
  the references \<open>4 0 R\<close>, \<open>6 0 R\<close>, ... one per page in page order, and its
  \<^verbatim>\<open>/Count\<close> is \<open>n\<close>. Object \<open>4 + 2 * k\<close> is the page object of page \<open>k\<close>, and
  its contents, object \<open>5 + 2 * k\<close>, hold the stream of that page.
\<close>

theorem pages_tree_and_size:
  "\<exists>objects pre post xref_offset.
     pdf_objects pages = Inr (objects, 2 * length pages + 3) \<and>
     objects 2 = Some (''<< /Type /Pages /Kids [ ''
                       @ py_join '' '' (map (\<lambda>k. decimal (4 + 2 * k) @ '' 0 R'') [0 ..< length pages])
                       @ '' ] /Count '' @ decimal (length pages) @ '' >>'') \<and>
     (\<forall>k < length pages.
        objects (4 + 2 * k) = Some (page_object (5 + 2 * k)) \<and>
        (\<exists>stream. build_page_stream (pages ! k) = Inr stream \<and>
                   objects (5 + 2 * k) = Some (content_object stream))) \<and>
     pdf_output pages =
       Inr (pre @ object_entry 2 (the (objects 2)) @ post
            @ ''trailer'' @ [LF]
            @ ''<< /Size '' @ decimal (2 * length pages + 4) @ '' /Root 1 0 R >>'' @ [LF]
            @ ''startxref'' @ [LF] @ decimal xref_offset @ [LF] @ ''%%EOF'' @ [LF])"
proof -
  let ?n = "length pages"
  let ?m = "2 * ?n + 3"
  from pdf_output_result [of pages] obtain objects offsets body where
    ob: "pdf_objects pages = Inr (objects, ?m)"
    and body: "body = pdf_header @ concat (map (\<lambda>i. object_entry i (the (objects i))) [1 ..< 2 * ?n + 4])"
    and o: "pdf_output pages =
       Inr (body @ xref_head ?m @ concat (map (\<lambda>i. xref_entry (offsets ! i)) [1 ..< 2 * ?n + 4])
            @ trailer ?m (length body))"
    by blast
  from pdf_objects_result [of pages] ob have
    o2: "objects 2 = Some (pages_object (map (\<lambda>k. 4 + 2 * k) [0..<?n]))"
    and op: "\<forall>k < ?n. objects (4 + 2 * k) = Some (page_object (5 + 2 * k)) \<and>
           (\<exists>st. build_page_stream (pages ! k) = Inr st \<and>
                 objects (5 + 2 * k) = Some (content_object st))"
    by auto
  let ?E = "\<lambda>i. object_entry i (the (objects i))"
  have split: "[1 ..< 2 * ?n + 4] = [1 ..< 2] @ 2 # [Suc 2 ..< 2 * ?n + 4]"
    by (intro upt_split3) auto
  define pre where "pre = pdf_header @ concat (map ?E [1 ..< 2])"
  define post where "post = concat (map ?E [Suc 2 ..< 2 * ?n + 4])
        @ xref_head ?m @ concat (map (\<lambda>i. xref_entry (offsets ! i)) [1 ..< 2 * ?n + 4])"
  have kids: "objects 2 = Some (''<< /Type /Pages /Kids [ ''
                       @ py_join '' '' (map (\<lambda>k. decimal (4 + 2 * k) @ '' 0 R'') [0 ..< ?n])
                       @ '' ] /Count '' @ decimal ?n @ '' >>'')"
    using o2 by (simp add: pages_object_def comp_def)
  have out: "pdf_output pages =
       Inr (pre @ ?E 2 @ post
            @ ''trailer'' @ [LF]
            @ ''<< /Size '' @ decimal (2 * ?n + 4) @ '' /Root 1 0 R >>'' @ [LF]
            @ ''startxref'' @ [LF] @ decimal (length body) @ [LF] @ ''%%EOF'' @ [LF])"
  proof -
    have "body = pre @ ?E 2 @ concat (map ?E [Suc 2 ..< 2 * ?n + 4])"
      unfolding body pre_def by (subst split) simp
    then show ?thesis unfolding o post_def by (simp add: trailer_def add.commute)
  qed
  show ?thesis using ob kids op out by blast
qed

lemma py_join_length: "sum_list (map length xs) \<le> length (py_join sep xs)"
  by (induction sep xs rule: py_join.induct) auto

lemma line_commands_length:
  "7 * length L \<le> sum_list (map length (concat (map (\<lambda>line. [str ''('' @ f line @ str '') Tj'', str ''T*'']) L)))"
  by (induction L) (auto simp: str_def)

lemma page_commands_length: "7 * length L \<le> sum_list (map length (page_commands L))"
  using line_commands_length [of L "\<lambda>line. pdf_escape (to_latin1 line)"]
  by (simp add: page_commands_def)

lemma build_page_stream_length: "build_page_stream L = Inr st \<Longrightarrow> 7 * length L \<le> length st"
  using page_commands_length [of L] py_join_length [of "page_commands L" "[10]"]
  by (auto simp: build_page_stream_total)

text \<open>
  C6 as stated fails on a file of more than \<open>10 ^ 10\<close> bytes: with a first page of
  two thousand million empty lines and a second page, the offset recorded for
  object 6 is written with more than ten digits.
\<close>

theorem xref_width_counterexample:
  "(case pdf_body [replicate 2000000000 [], []] of
      Inl e \<Rightarrow> False
    | Inr (body, offsets, max_object_id) \<Rightarrow>
        max_object_id = 7 \<and> 10 < length (zfill10 (decimal (offsets ! 6))))"
proof -
  let ?pages = "[replicate 2000000000 [], []] :: pystr list list"
  from pdf_output_result [of ?pages] obtain objects offsets body where
    ob: "pdf_objects ?pages = Inr (objects, 2 * length ?pages + 3)"
    and b: "pdf_body ?pages = Inr (body, offsets, 2 * length ?pages + 3)"
    and p: "\<And>i. 1 \<le> i \<and> i \<le> 2 * length ?pages + 3 \<Longrightarrow>
        offsets ! i = length (pdf_header @ concat (map (\<lambda>i. object_entry i (the (objects i))) [1 ..< i]))"
    by blast
  from pdf_objects_result [of ?pages] ob have
    "\<forall>k < length ?pages. objects (4 + 2 * k) = Some (page_object (5 + 2 * k)) \<and>
           (\<exists>st. build_page_stream (?pages ! k) = Inr st \<and>
                 objects (5 + 2 * k) = Some (content_object st))"
    by auto
  then obtain st where st: "build_page_stream (?pages ! 0) = Inr st"
    and o5: "objects (5 + 2 * 0) = Some (content_object st)"
    by (metis length_greater_0_conv list.distinct(1))
  have "7 * length (?pages ! 0) \<le> length st" using st by (rule build_page_stream_length)
  then have big: "14000000000 \<le> length st" by simp
  have "[1 ..< 6] = [1 ..< 5] @ 5 # [Suc 5 ..< 6]" by (intro upt_split3) auto
  then have "length (object_entry 5 (the (objects 5)))
              \<le> length (pdf_header @ concat (map (\<lambda>i. object_entry i (the (objects i))) [1 ..< 6]))"
    by simp
  moreover have "length st \<le> length (object_entry 5 (the (objects 5)))"
    using o5 by (simp add: object_entry_def content_object_def)
  moreover have "offsets ! 6 = length (pdf_header @ concat (map (\<lambda>i. object_entry i (the (objects i))) [1 ..< 6]))"
    by (rule p) simp
  ultimately have "14000000000 \<le> offsets ! 6" using big by linarith
  then have "10 ^ 10 \<le> offsets ! 6" by simp
  then have "10 < length (decimal (offsets ! 6))" by (rule decimal_length_gt)
  then have "10 < length (zfill10 (decimal (offsets ! 6)))" by (simp add: zfill10_length)
  then show ?thesis using b by simp
qed

lemma one_page_layout:
  "map_sum id (\<lambda>(body, offsets, m). (length body, offsets, m)) (pdf_body [[[]]])
     = Inr (417, [0, 15, 64, 123, 193, 319], 5)"
  by code_simp

theorem xref_offsets_witness:
  "\<exists>body out.
     pdf_body [[[]]] = Inr (body, [0, 15, 64, 123, 193, 319], 5) \<and>
     pdf_output [[[]]] = Inr out \<and>
     take 7 (drop 193 out) = ''4 0 obj'' \<and>
     length (zfill10 (decimal 193)) = 10 \<and>
     take 4 (drop (length body) out) = ''xref''"
proof -
  from xref_offsets [of "[[[]]]"] obtain body offsets out rest where
    b: "pdf_body [[[]]] = Inr (body, offsets, 2 * length [[[]::pystr]] + 3)"
    and o: "pdf_output [[[]]] = Inr out"
    and eq: "out = body @ ''xref'' @ rest"
    and all: "\<forall>i. 1 \<le> i \<and> i \<le> 2 * length [[[]::pystr]] + 3 \<longrightarrow>
        take (length (decimal i @ '' 0 obj'')) (drop (offsets ! i) out) = decimal i @ '' 0 obj'' \<and>
        length (zfill10 (decimal (offsets ! i))) = max 10 (length (decimal (offsets ! i))) \<and>
        (offsets ! i < 10 ^ 10 \<longrightarrow> length (zfill10 (decimal (offsets ! i))) = 10)"
    by blast
  have shape: "take 4 (drop (length body) out) = ''xref''" by (simp add: eq)
  have offs: "offsets = [0, 15, 64, 123, 193, 319]"
    using one_page_layout b by simp
  have d4: "decimal 4 = ''4''" by code_simp
  have "take 7 (drop 193 out) = ''4 0 obj'' \<and> length (zfill10 (decimal 193)) = 10"
  proof -
    have seven: "Suc (Suc (Suc (Suc (Suc (Suc (Suc 0)))))) = 7" by simp
    show ?thesis using all [rule_format, of 4] by (simp add: offs d4 seven)
  qed
  then show ?thesis using b o shape offs by auto
qed

lemma two_page_kids:
  "map (\<lambda>k. decimal (4 + 2 * k) @ '' 0 R'') [0 ..< length [[str ''a''], [str ''b'']]]
     = [''4 0 R'', ''6 0 R''] \<and> decimal (length [[str ''a''], [str ''b'']]) = ''2''
   \<and> decimal (2 * length [[str ''a''], [str ''b'']] + 4) = ''8''"
  by code_simp

theorem pages_tree_and_size_witness:
  "\<exists>objects pre post xref_offset.
     pdf_objects [[str ''a''], [str ''b'']] = Inr (objects, 7) \<and>
     objects 2 = Some ''<< /Type /Pages /Kids [ 4 0 R 6 0 R ] /Count 2 >>'' \<and>
     objects 4 = Some (page_object 5) \<and> objects 6 = Some (page_object 7) \<and>
     pdf_output [[str ''a''], [str ''b'']] =
       Inr (pre @ object_entry 2 ''<< /Type /Pages /Kids [ 4 0 R 6 0 R ] /Count 2 >>'' @ post
            @ ''trailer'' @ [LF] @ ''<< /Size 8 /Root 1 0 R >>'' @ [LF]
            @ ''startxref'' @ [LF] @ decimal xref_offset @ [LF] @ ''%%EOF'' @ [LF])"
proof -
  let ?pages = "[[str ''a''], [str ''b'']]"
  from pages_tree_and_size [of ?pages] obtain objects pre post xref_offset where
    ob: "pdf_objects ?pages = Inr (objects, 2 * length ?pages + 3)"
    and o2: "objects 2 = Some (''<< /Type /Pages /Kids [ ''
                       @ py_join '' '' (map (\<lambda>k. decimal (4 + 2 * k) @ '' 0 R'') [0 ..< length ?pages])
                       @ '' ] /Count '' @ decimal (length ?pages) @ '' >>'')"
    and op: "\<And>k. k < length ?pages \<Longrightarrow> objects (4 + 2 * k) = Some (page_object (5 + 2 * k))"
    and out: "pdf_output ?pages =
       Inr (pre @ object_entry 2 (the (objects 2)) @ post
            @ ''trailer'' @ [LF]
            @ ''<< /Size '' @ decimal (2 * length ?pages + 4) @ '' /Root 1 0 R >>'' @ [LF]
            @ ''startxref'' @ [LF] @ decimal xref_offset @ [LF] @ ''%%EOF'' @ [LF])"
    by blast
  have kids: "objects 2 = Some ''<< /Type /Pages /Kids [ 4 0 R 6 0 R ] /Count 2 >>''"
    using o2 by (simp only: two_page_kids) simp
  have p0: "objects 4 = Some (page_object 5)" using op [of 0] by simp
  have p1: "objects 6 = Some (page_object 7)" using op [of 1] by simp
  have ob': "pdf_objects ?pages = Inr (objects, 7)" using ob by simp
  have out': "pdf_output ?pages =
       Inr (pre @ object_entry 2 ''<< /Type /Pages /Kids [ 4 0 R 6 0 R ] /Count 2 >>'' @ post
            @ ''trailer'' @ [LF] @ ''<< /Size 8 /Root 1 0 R >>'' @ [LF]
            @ ''startxref'' @ [LF] @ decimal xref_offset @ [LF] @ ''%%EOF'' @ [LF])"
    using out by (simp only: kids two_page_kids option.sel) simp
  show ?thesis using ob' kids p0 p1 out' by blast
qed

section \<open>Properties of the formatter\<close>

lemma fence_toggles:
  "startswith (strip (rstrip raw)) (str ''```'') \<Longrightarrow>
   format_line upper (lines, in_code_block) raw = Inr (lines @ [[]], \<not> in_code_block)"
  by (simp add: format_line_def)

lemma python_fence: "startswith (strip (rstrip (str ''  ```python''))) (str ''```'')"
  by (simp add: startswith_def strip_def rstrip_def str_def isspace_def)

lemma linebreak_13: "is_linebreak 13" and linebreak_10: "is_linebreak 10"
  by (simp_all add: is_linebreak_def)

lemma splitlines_from_plain:
  "\<forall>c \<in> set l. \<not> is_linebreak c \<Longrightarrow>
   splitlines_from cur l = (if cur @ l = [] then [] else [cur @ l])"
proof (induction cur l rule: splitlines_from.induct)
  case (1 cur)
  show ?case by simp
next
  case (2 cur c)
  then show ?case by simp
next
  case (3 cur c d cs)
  have c: "\<not> is_linebreak c" using "3.prems" by simp
  then have c13: "c \<noteq> 13" using linebreak_13 by auto
  have rest: "\<forall>x \<in> set (d # cs). \<not> is_linebreak x" using "3.prems" by simp
  have "splitlines_from cur (c # d # cs) = splitlines_from (cur @ [c]) (d # cs)"
    using c c13 by simp
  also have "\<dots> = (if (cur @ [c]) @ d # cs = [] then [] else [(cur @ [c]) @ d # cs])"
    using c c13 rest by (intro "3.IH"(3)) simp_all
  finally show ?case by simp
qed

lemma splitlines_from_line:
  "\<forall>c \<in> set l. \<not> is_linebreak c \<Longrightarrow>
   splitlines_from cur (l @ 10 # rest) = (cur @ l) # splitlines_from [] rest"
proof (induction l arbitrary: cur)
  case Nil
  show ?case by (cases rest) (simp_all add: linebreak_10)
next
  case (Cons c l)
  have c: "\<not> is_linebreak c" using Cons.prems by simp
  then have c13: "c \<noteq> 13" using linebreak_13 by auto
  obtain d ds where e: "l @ 10 # rest = d # ds" by (cases "l @ 10 # rest") auto
  have "splitlines_from cur ((c # l) @ 10 # rest) = splitlines_from (cur @ [c]) (l @ 10 # rest)"
    using c c13 by (simp add: e)
  also have "\<dots> = ((cur @ [c]) @ l) # splitlines_from [] rest"
    using Cons.prems by (intro Cons.IH) simp
  finally show ?case by simp
qed

lemma py_upto_length: "0 \<le> e \<Longrightarrow> length (py_upto e xs) \<le> nat e"
  by (simp add: py_upto_def)

lemma length_concat_sum: "length (concat xs) = sum_list (map length xs)"
  by (induction xs) auto

lemma length_concat_butlast: "length (concat (butlast xs)) \<le> length (concat xs)"
  by (induction xs) auto

lemma drop_trailing_whitespace_length:
  "length (concat (drop_trailing_whitespace cur_line)) \<le> length (concat cur_line)"
  by (simp add: drop_trailing_whitespace_def length_concat_butlast)

lemma next_line_fits:
  assumes "1 \<le> width" and "next_line width chunks have_lines = (cur_line, chunks')"
  shows "length (concat cur_line) \<le> width"
proof -
  define chunks1 where "chunks1 = drop_leading_whitespace chunks have_lines"
  obtain cur_line1 chunks2 cur_len where
    f: "fill_line width chunks1 [] 0 = (cur_line1, chunks2, cur_len)"
    by (cases "fill_line width chunks1 [] 0") auto
  from fill_line_split [OF f] obtain taken where
    cl: "cur_line1 = taken" and len: "cur_len = sum_list (map length taken)"
    and fit: "cur_len \<le> width"
    by auto
  obtain cur_line2 chunks3 where
    b: "break_long_word width cur_line1 chunks2 cur_len = (cur_line2, chunks3)"
    by (cases "break_long_word width cur_line1 chunks2 cur_len") auto
  have res: "cur_line = drop_trailing_whitespace cur_line2"
    using assms(2) by (simp add: next_line_def chunks1_def [symmetric] f b)
  have l1: "length (concat cur_line1) = cur_len" by (simp add: cl len length_concat_sum)
  have "length (concat cur_line2) \<le> width"
  proof (cases "cur_line2 = cur_line1")
    case True
    with l1 fit show ?thesis by simp
  next
    case False
    with b obtain c where c2: "cur_line2 = cur_line1 @ [py_upto (int width - int cur_len) c]"
      using assms(1)
      by (auto simp: break_long_word_def handle_long_word_def Let_def split: list.splits if_splits)
    have "length (py_upto (int width - int cur_len) c) \<le> nat (int width - int cur_len)"
      using fit by (intro py_upto_length) simp
    then show ?thesis using l1 fit by (simp add: c2)
  qed
  then show ?thesis
    using drop_trailing_whitespace_length [of cur_line2] by (simp add: res)
qed

lemma wrap_chunks_fits:
  "1 \<le> width \<Longrightarrow> \<forall>l \<in> set lines. length l \<le> width \<Longrightarrow>
   \<forall>l \<in> set (wrap_chunks width chunks lines). length l \<le> width"
proof (induction width chunks lines rule: wrap_chunks.induct)
  case (1 width chunks lines)
  show ?case
  proof (cases "chunks = []")
    case True
    then show ?thesis using "1.prems" by (subst wrap_chunks.simps) simp
  next
    case False
    obtain cur_line chunks' where
      n: "next_line width chunks (lines \<noteq> []) = (cur_line, chunks')"
      by (cases "next_line width chunks (lines \<noteq> [])") auto
    have fits: "length (concat cur_line) \<le> width"
      using "1.prems"(1) n by (rule next_line_fits)
    let ?lines = "if cur_line \<noteq> [] then lines @ [concat cur_line] else lines"
    have "\<forall>l \<in> set ?lines. length l \<le> width" using "1.prems"(2) fits by auto
    from "1.IH" [OF False n [symmetric] "1.prems"(1) this]
    show ?thesis using False n by (subst wrap_chunks.simps) simp
  qed
qed

lemma wrap_text_fits:
  "wrap_text text width = Inr wrapped \<Longrightarrow>
   wrapped \<noteq> [] \<and> (\<forall>l \<in> set wrapped. int (length l) \<le> width)"
proof -
  assume w: "wrap_text text width = Inr wrapped"
  then have pos: "0 < width"
    by (auto simp: wrap_text_def textwrap_wrap_def Let_def split: if_splits)
  define ws where "ws = wrap_chunks (nat width) (split_chunks (expandtabs text)) []"
  have "\<forall>l \<in> set ws. length l \<le> nat width"
    unfolding ws_def using pos by (intro wrap_chunks_fits) auto
  moreover have "wrapped = (if ws \<noteq> [] then ws else [[]])"
    using w pos by (auto simp: wrap_text_def textwrap_wrap_def Let_def ws_def)
  ultimately show ?thesis using pos by (auto split: if_splits)
qed

lemma wrap_text_raises:
  "width \<le> 0 \<Longrightarrow> wrap_text text width = Inl ValueError"
  by (simp add: wrap_text_def textwrap_wrap_def)

lemma wrap_text_returns:
  "0 < width \<Longrightarrow> \<exists>wrapped. wrap_text text width = Inr wrapped"
  by (simp add: wrap_text_def textwrap_wrap_def)

lemma enumerate_from_positive:
  "0 < n \<Longrightarrow>
   map (\<lambda>(index, chunk). (if index = 0 then p else q) @ chunk) (enumerate n cs) = map (\<lambda>chunk. q @ chunk) cs"
  by (induction cs arbitrary: n) auto

lemma with_prefix_Nil: "with_prefix prefix [] = []"
  by (simp add: with_prefix_def)

lemma with_prefix_Cons:
  "with_prefix prefix (c # cs) = (prefix @ c) # map (\<lambda>chunk. replicate (length prefix) 32 @ chunk) cs"
  by (simp add: with_prefix_def enumerate_from_positive)

lemma with_prefix_fits:
  "\<forall>c \<in> set cs. int (length c) \<le> w - int (length prefix) \<Longrightarrow>
   \<forall>l \<in> set (with_prefix prefix cs). int (length l) \<le> w"
  by (cases cs) (auto simp: with_prefix_Nil with_prefix_Cons)

lemma format_line_code:
  "\<not> startswith (strip (rstrip raw)) (str ''```'') \<Longrightarrow>
   format_line upper (lines, True) raw =
     (case wrap_text (rstrip raw) (MAX_CHARS_PER_LINE - 4) of
        Inl e \<Rightarrow> Inl e
      | Inr code \<Rightarrow>
          Inr (lines @ map (\<lambda>wrapped. if wrapped \<noteq> [] then str ''    '' @ wrapped else []) code, True))"
  by (simp add: format_line_def)

lemma format_line_blank:
  "\<not> startswith (strip (rstrip raw)) (str ''```'') \<Longrightarrow> strip (rstrip raw) = [] \<Longrightarrow>
   format_line upper (lines, False) raw = Inr (lines @ [[]], False)"
  by (simp add: format_line_def)

lemma format_line_heading:
  "\<not> startswith (strip (rstrip raw)) (str ''```'') \<Longrightarrow> strip (rstrip raw) \<noteq> [] \<Longrightarrow>
   match_heading (rstrip raw) = Some heading2 \<Longrightarrow>
   format_line upper (lines, False) raw =
     (case wrap_text (upper (strip heading2)) MAX_CHARS_PER_LINE of
        Inl e \<Rightarrow> Inl e
      | Inr title_lines \<Rightarrow>
          Inr ((if lines \<noteq> [] \<and> last lines \<noteq> [] then lines @ [[]] else lines) @ title_lines @ [[]],
               False))"
  by (simp add: format_line_def)

lemma format_line_bullet:
  "\<not> startswith (strip (rstrip raw)) (str ''```'') \<Longrightarrow> strip (rstrip raw) \<noteq> [] \<Longrightarrow>
   match_heading (rstrip raw) = None \<Longrightarrow> match_bullet (rstrip raw) = Some bullet2 \<Longrightarrow>
   format_line upper (lines, False) raw =
     (case wrap_text (strip bullet2) (MAX_CHARS_PER_LINE - int (length (str ''- ''))) of
        Inl e \<Rightarrow> Inl e
      | Inr body_lines \<Rightarrow> Inr (lines @ with_prefix (str ''- '') body_lines, False))"
  by (simp add: format_line_def Let_def)

lemma format_line_numbered:
  "\<not> startswith (strip (rstrip raw)) (str ''```'') \<Longrightarrow> strip (rstrip raw) \<noteq> [] \<Longrightarrow>
   match_heading (rstrip raw) = None \<Longrightarrow> match_bullet (rstrip raw) = None \<Longrightarrow>
   match_numbered (rstrip raw) = Some (numbered1, numbered2) \<Longrightarrow>
   format_line upper (lines, False) raw =
     (case wrap_text (strip numbered2)
             (MAX_CHARS_PER_LINE - int (length (numbered1 @ str '' ''))) of
        Inl e \<Rightarrow> Inl e
      | Inr body_lines \<Rightarrow> Inr (lines @ with_prefix (numbered1 @ str '' '') body_lines, False))"
  by (simp add: format_line_def Let_def)

lemma format_line_plain:
  "\<not> startswith (strip (rstrip raw)) (str ''```'') \<Longrightarrow> strip (rstrip raw) \<noteq> [] \<Longrightarrow>
   match_heading (rstrip raw) = None \<Longrightarrow> match_bullet (rstrip raw) = None \<Longrightarrow>
   match_numbered (rstrip raw) = None \<Longrightarrow>
   format_line upper (lines, False) raw =
     (case wrap_text (strip (rstrip raw)) MAX_CHARS_PER_LINE of
        Inl e \<Rightarrow> Inl e
      | Inr wrapped \<Rightarrow> Inr (lines @ wrapped, False))"
  by (simp add: format_line_def)

lemma format_line_fits:
  assumes "format_line upper (lines, in_code_block) raw = Inr (lines', in_code_block')"
    and "\<forall>l \<in> set lines. int (length l) \<le> MAX_CHARS_PER_LINE"
  shows "\<forall>l \<in> set lines'. int (length l) \<le> MAX_CHARS_PER_LINE"
proof (cases "startswith (strip (rstrip raw)) (str ''```'')")
  case True
  from fence_toggles [OF True, of upper lines in_code_block] assms
  show ?thesis by (auto simp: MAX_CHARS_PER_LINE_def)
next
  case nf: False
  show ?thesis
  proof (cases in_code_block)
    case True
    have a1: "format_line upper (lines, True) raw = Inr (lines', in_code_block')"
      using assms(1) True by simp
    from a1 [unfolded format_line_code [OF nf]] obtain code where
      w: "wrap_text (rstrip raw) (MAX_CHARS_PER_LINE - 4) = Inr code"
      and l: "lines' = lines @ map (\<lambda>wrapped. if wrapped \<noteq> [] then str ''    '' @ wrapped else []) code"
      by (auto split: sum.splits)
    from wrap_text_fits [OF w] have "\<forall>c \<in> set code. int (length c) \<le> MAX_CHARS_PER_LINE - 4" by simp
    then show ?thesis using assms(2) by (auto simp: l str_def MAX_CHARS_PER_LINE_def)
  next
    case ncb: False
    have a1: "format_line upper (lines, False) raw = Inr (lines', in_code_block')"
      using assms(1) ncb by simp
    show ?thesis
    proof (cases "strip (rstrip raw) = []")
      case True
      from a1 [unfolded format_line_blank [OF nf True]] assms(2) show ?thesis
        by (auto simp: MAX_CHARS_PER_LINE_def)
    next
      case ne: False
      show ?thesis
      proof (cases "match_heading (rstrip raw)")
        case (Some heading2)
        from a1 [unfolded format_line_heading [OF nf ne Some]] obtain title_lines where
          w: "wrap_text (upper (strip heading2)) MAX_CHARS_PER_LINE = Inr title_lines"
          and l: "lines' = (if lines \<noteq> [] \<and> last lines \<noteq> [] then lines @ [[]] else lines)
                           @ title_lines @ [[]]"
          by (auto split: sum.splits)
        from wrap_text_fits [OF w] show ?thesis
          using assms(2) by (auto simp: l MAX_CHARS_PER_LINE_def)
      next
        case nh: None
        show ?thesis
        proof (cases "match_bullet (rstrip raw)")
          case (Some bullet2)
          from a1 [unfolded format_line_bullet [OF nf ne nh Some]] obtain body_lines where
            w: "wrap_text (strip bullet2) (MAX_CHARS_PER_LINE - int (length (str ''- ''))) = Inr body_lines"
            and l: "lines' = lines @ with_prefix (str ''- '') body_lines"
            by (auto split: sum.splits)
          from wrap_text_fits [OF w] with_prefix_fits [of body_lines MAX_CHARS_PER_LINE "str ''- ''"]
          show ?thesis using assms(2) by (auto simp: l)
        next
          case nb: None
          show ?thesis
          proof (cases "match_numbered (rstrip raw)")
            case (Some p)
            obtain numbered1 numbered2 where p: "p = (numbered1, numbered2)" by (cases p)
            from a1 [unfolded format_line_numbered [OF nf ne nh nb Some [unfolded p]]] obtain body_lines where
              w: "wrap_text (strip numbered2)
                    (MAX_CHARS_PER_LINE - int (length (numbered1 @ str '' ''))) = Inr body_lines"
              and l: "lines' = lines @ with_prefix (numbered1 @ str '' '') body_lines"
              by (auto split: sum.splits)
            from wrap_text_fits [OF w]
              with_prefix_fits [of body_lines MAX_CHARS_PER_LINE "numbered1 @ str '' ''"]
            show ?thesis using assms(2) by (auto simp: l)
          next
            case nn: None
            from a1 [unfolded format_line_plain [OF nf ne nh nb nn]] obtain wrapped where
              w: "wrap_text (strip (rstrip raw)) MAX_CHARS_PER_LINE = Inr wrapped"
              and l: "lines' = lines @ wrapped"
              by (auto split: sum.splits)
            from wrap_text_fits [OF w] show ?thesis using assms(2) by (auto simp: l)
          qed
        qed
      qed
    qed
  qed
qed

lemma format_lines_fits:
  "format_lines upper state raws = Inr (lines', in_code_block') \<Longrightarrow>
   \<forall>l \<in> set (fst state). int (length l) \<le> MAX_CHARS_PER_LINE \<Longrightarrow>
   \<forall>l \<in> set lines'. int (length l) \<le> MAX_CHARS_PER_LINE"
proof (induction raws arbitrary: state)
  case Nil
  then show ?case by simp
next
  case (Cons raw raws)
  obtain lines b where st: "state = (lines, b)" by (cases state)
  from Cons.prems(1) obtain lines1 b1 where
    s: "format_line upper (lines, b) raw = Inr (lines1, b1)"
    and r: "format_lines upper (lines1, b1) raws = Inr (lines', in_code_block')"
    by (auto simp: st split: sum.splits)
  have "\<forall>l \<in> set lines1. int (length l) \<le> MAX_CHARS_PER_LINE"
    using s Cons.prems(2) by (intro format_line_fits [OF s]) (simp add: st)
  then show ?case using Cons.IH [OF r] by simp
qed

lemma pop_blank_lines_subset: "set (pop_blank_lines lines) \<subseteq> set lines"
proof (induction lines rule: pop_blank_lines.induct)
  case (1 lines)
  show ?case
  proof (cases "lines \<noteq> [] \<and> last lines = []")
    case True
    then have "set (pop_blank_lines (butlast lines)) \<subseteq> set (butlast lines)" by (rule "1.IH")
    moreover have "set (butlast lines) \<subseteq> set lines" by (meson in_set_butlastD subsetI)
    ultimately show ?thesis using True by (subst pop_blank_lines.simps) auto
  next
    case False
    then show ?thesis by (subst pop_blank_lines.simps) auto
  qed
qed

lemma isdecimal_ranges:
  "isdecimal d \<Longrightarrow>
   (48 \<le> d \<and> d \<le> 57) \<or> (1632 \<le> d \<and> d \<le> 4249) \<or> (6112 \<le> d \<and> d \<le> 7257) \<or> 42528 \<le> d"
  unfolding isdecimal_def decimal_blocks_def
  by (simp only: list_ex_Cons_iff list_ex_Nil_iff) (elim disjE conjE; simp)

lemma isdecimal_not_space: "isdecimal d \<Longrightarrow> \<not> isspace d"
  using isdecimal_ranges [of d] unfolding isspace_def by arith

lemma isdecimal_not_mark: "isdecimal d \<Longrightarrow> d \<noteq> 35 \<and> d \<noteq> 42 \<and> d \<noteq> 45 \<and> d \<noteq> 96"
  using isdecimal_ranges [of d] by arith

lemma rstrip_idem: "rstrip (rstrip s) = rstrip s"
  by (simp add: rstrip_def)

lemma strip_rstrip: "strip (rstrip s) = dropWhile isspace (rstrip s)"
  by (simp add: strip_def rstrip_idem)

lemma match_numbered_shape:
  assumes "match_numbered line = Some (number, text)"
  shows "\<exists>d digits r.
           dropWhile isspace line = d # digits @ 46 # r \<and> isdecimal d \<and>
           number = takeWhile isspace line @ d # digits @ [46] \<and>
           (\<forall>x \<in> set digits. isdecimal x) \<and> match_tail r = Some text"
proof -
  define rest where "rest = dropWhile isspace line"
  define ds where "ds = takeWhile isdecimal rest"
  from assms obtain c r where
    dw: "dropWhile isdecimal rest = c # r" and ne: "ds \<noteq> []" and c: "c = 46"
    and t: "match_tail r = Some text"
    and n: "number = takeWhile isspace line @ ds @ [46]"
    unfolding match_numbered_def rest_def [symmetric] Let_def ds_def [symmetric]
    by (auto split: list.splits if_splits option.splits)
  obtain d digits where ds: "ds = d # digits" using ne by (cases ds) auto
  have all: "\<forall>x \<in> set ds. isdecimal x" unfolding ds_def by (meson set_takeWhileD)
  have "rest = ds @ dropWhile isdecimal rest" by (simp add: ds_def)
  then have "rest = d # digits @ 46 # r" by (simp add: ds dw c)
  then show ?thesis using all n t unfolding rest_def ds by auto
qed

lemma numbered_excludes:
  assumes "match_numbered (rstrip raw) = Some (number, text)"
  shows "\<not> startswith (strip (rstrip raw)) (str ''```'')"
    and "strip (rstrip raw) \<noteq> []"
    and "match_heading (rstrip raw) = None"
    and "match_bullet (rstrip raw) = None"
proof -
  from match_numbered_shape [OF assms] obtain d rest where
    dw: "dropWhile isspace (rstrip raw) = d # rest" and d: "isdecimal d"
    by blast
  note m = isdecimal_not_mark [OF d]
  show "\<not> startswith (strip (rstrip raw)) (str ''```'')"
    using m by (simp add: strip_rstrip dw startswith_def str_def)
  show "strip (rstrip raw) \<noteq> []" by (simp add: strip_rstrip dw)
  show "match_bullet (rstrip raw) = None" using m by (simp add: match_bullet_def dw)
  have "takeWhile (\<lambda>c. c = 35) (rstrip raw) = []"
  proof (cases "rstrip raw")
    case Nil
    then show ?thesis by simp
  next
    case (Cons a as)
    have "a \<noteq> 35"
    proof (cases "isspace a")
      case True
      then show ?thesis by (auto simp: isspace_def)
    next
      case False
      with dw Cons m show ?thesis by simp
    qed
    then show ?thesis by (simp add: Cons)
  qed
  then show "match_heading (rstrip raw) = None" by (simp add: match_heading_def)
qed

lemmas formatter_eval =
  markdown_to_lines_def splitlines_def format_line_def startswith_def strip_def rstrip_def
  str_def isspace_def is_linebreak_def is_wordsep_def isdecimal_def decimal_blocks_def
  match_heading_def match_bullet_def match_numbered_def match_tail_def dot_star_eol_def
  wrap_text_def textwrap_wrap_def expandtabs_def wrap_chunks.simps next_line_def
  drop_leading_whitespace_def break_long_word_def handle_long_word_def
  drop_trailing_whitespace_def py_upto_def py_from_def with_prefix_def enumerate_eq_zip
  MAX_CHARS_PER_LINE_def pop_blank_lines.simps Let_def

lemma replicate_numeral_Cons: "replicate (numeral k) x = x # replicate (pred_numeral k) x"
  by (simp add: numeral_eq_Suc)

lemma lines_fit_width:
  "markdown_to_lines upper markdown = Inr lines \<Longrightarrow>
   \<forall>line \<in> set lines. int (length line) \<le> MAX_CHARS_PER_LINE \<and> length line \<le> 94"
proof -
  assume m: "markdown_to_lines upper markdown = Inr lines"
  then obtain lines0 b where
    f: "format_lines upper ([], False) (splitlines markdown) = Inr (lines0, b)"
    and l: "lines = pop_blank_lines lines0"
    by (auto simp: markdown_to_lines_def split: sum.splits)
  have "\<forall>line \<in> set lines0. int (length line) \<le> MAX_CHARS_PER_LINE"
    by (rule format_lines_fits [OF f]) simp
  then have "\<forall>line \<in> set lines. int (length line) \<le> MAX_CHARS_PER_LINE"
    using pop_blank_lines_subset [of lines0] l by auto
  then show ?thesis by (auto simp: MAX_CHARS_PER_LINE_def)
qed

lemma bullet_document:
  "markdown_to_lines ascii_upper (str ''# Title'' @ [10] @ str ''- hello world'')
     = Inr [str ''TITLE'', [], str ''- hello world'']"
  by (simp add: formatter_eval ascii_upper_def)

lemma lines_fit_width_example:
  "markdown_to_lines ascii_upper (str ''# Title'' @ [10] @ str ''- hello world'')
     = Inr [str ''TITLE'', [], str ''- hello world''] \<and>
   length (str ''TITLE'') \<le> 94 \<and> length (str ''- hello world'') \<le> 94"
  using lines_fit_width [OF bullet_document] bullet_document by simp

text \<open>
  C4. The code breaks the second half of the claim. The formatter strips each raw line
  and lets \<^verbatim>\<open>textwrap\<close> drop whitespace at the breaks, but two kinds of output line
  still end in whitespace, whatever \<^verbatim>\<open>str.upper\<close> is. When a line is full after a
  space and the next word is longer than a whole line, \<^verbatim>\<open>textwrap\<close> appends an empty
  piece of the word and then drops that piece instead of the space: 93 letters, a
  space and a word of 95 letters give a first line of 93 letters and the space. And
  \<^verbatim>\<open>textwrap\<close> breaks at ASCII whitespace only, so a word that ends in another
  whitespace character, here the no-break space 160, ends a line when the break comes
  after it.
\<close>

theorem trailing_whitespace_evaluation:
  "markdown_to_lines upper (replicate 93 97 @ [32] @ replicate 95 98)
     = Inr [replicate 93 97 @ [32], replicate 94 98, [98]] \<and>
   last (replicate 93 97 @ [32]) = 32 \<and> isspace 32 \<and>
   markdown_to_lines upper (replicate 92 97 @ [160, 32] @ str ''bb'')
     = Inr [replicate 92 97 @ [160], str ''bb''] \<and>
   last (replicate 92 97 @ [160]) = 160 \<and> isspace 160"
  by (simp add: formatter_eval replicate_numeral_Cons)

text \<open>
  C10. The formatter is not total. When a raw line is a numbered item whose prefix, the
  matched leading whitespace, digits and dot plus one space, has 94 characters or more,
  the width passed to the wrapper is zero or negative, the wrapper raises ValueError,
  and so do the loop body outside a code block, the loop over any lines that start with
  this one, and the formatter on the document that consists of this line.
\<close>

theorem numbered_prefix_raises:
  "match_numbered (rstrip raw) = Some (number, text) \<Longrightarrow>
   MAX_CHARS_PER_LINE \<le> int (length (number @ str '' '')) \<Longrightarrow>
   MAX_CHARS_PER_LINE - int (length (number @ str '' '')) \<le> 0 \<and>
   wrap_text (strip text) (MAX_CHARS_PER_LINE - int (length (number @ str '' ''))) = Inl ValueError \<and>
   format_line upper (lines, False) raw = Inl ValueError \<and>
   format_lines upper (lines, False) (raw # raws) = Inl ValueError \<and>
   ((\<forall>c \<in> set raw. \<not> is_linebreak c) \<longrightarrow> markdown_to_lines upper raw = Inl ValueError)"
proof -
  assume m: "match_numbered (rstrip raw) = Some (number, text)"
    and long: "MAX_CHARS_PER_LINE \<le> int (length (number @ str '' ''))"
  let ?w = "MAX_CHARS_PER_LINE - int (length (number @ str '' ''))"
  have w: "?w \<le> 0" using long by simp
  have wt: "wrap_text (strip text) ?w = Inl ValueError" using w by (rule wrap_text_raises)
  have fl: "format_line upper (ls, False) raw = Inl ValueError" for ls
    unfolding format_line_numbered [OF numbered_excludes [OF m] m] wt by simp
  have fls: "format_lines upper (ls, False) (raw # rs) = Inl ValueError" for ls rs
    by (simp add: fl)
  have doc: "markdown_to_lines upper raw = Inl ValueError" if nl: "\<forall>c \<in> set raw. \<not> is_linebreak c"
  proof -
    have "raw \<noteq> []" using numbered_excludes(2) [OF m] by (auto simp: strip_def rstrip_def)
    then have "splitlines raw = [raw]"
      using splitlines_from_plain [OF nl, of "[]"] by (simp add: splitlines_def)
    then show ?thesis by (simp add: markdown_to_lines_def fl)
  qed
  show ?thesis using w wt fl fls doc by blast
qed

lemma long_number_match:
  "match_numbered (rstrip (replicate 92 49 @ str ''. x'')) = Some (replicate 92 49 @ [46], str ''x'')"
  by (simp add: rstrip_def match_numbered_def match_tail_def dot_star_eol_def str_def isspace_def
        isdecimal_def decimal_blocks_def replicate_numeral_Cons Let_def)

theorem numbered_prefix_raises_witness:
  "match_numbered (rstrip (replicate 92 49 @ str ''. x'')) = Some (replicate 92 49 @ [46], str ''x'') \<and>
   MAX_CHARS_PER_LINE \<le> int (length (replicate 92 49 @ [46] @ str '' '')) \<and>
   format_line ascii_upper ([], False) (replicate 92 49 @ str ''. x'') = Inl ValueError \<and>
   markdown_to_lines ascii_upper (replicate 92 49 @ str ''. x'') = Inl ValueError"
proof -
  have long: "MAX_CHARS_PER_LINE \<le> int (length ((replicate 92 49 @ [46]) @ str '' ''))"
    by (simp add: MAX_CHARS_PER_LINE_def str_def)
  have nl: "\<forall>c \<in> set (replicate 92 49 @ str ''. x''). \<not> is_linebreak c"
    by (simp add: str_def is_linebreak_def)
  from numbered_prefix_raises [OF long_number_match long, of ascii_upper "[]" "[]"] nl
  show ?thesis using long_number_match long by simp
qed

lemma numbered_item:
  "match_numbered (rstrip raw) = Some (number, text) \<Longrightarrow>
   int (length (number @ str '' '')) < MAX_CHARS_PER_LINE \<Longrightarrow>
   \<exists>digits body_lines.
     number = takeWhile isspace (rstrip raw) @ digits @ str ''.'' \<and>
     digits \<noteq> [] \<and> list_all isdecimal digits \<and>
     wrap_text (strip text) (MAX_CHARS_PER_LINE - int (length (number @ str '' ''))) = Inr body_lines \<and>
     body_lines \<noteq> [] \<and>
     format_line upper (lines, False) raw =
       Inr (lines @ ((number @ str '' '') @ hd body_lines)
                  # map (\<lambda>chunk. replicate (length (number @ str '' '')) 32 @ chunk) (tl body_lines),
            False)"
proof -
  assume m: "match_numbered (rstrip raw) = Some (number, text)"
    and short: "int (length (number @ str '' '')) < MAX_CHARS_PER_LINE"
  let ?prefix = "number @ str '' ''"
  let ?w = "MAX_CHARS_PER_LINE - int (length ?prefix)"
  from match_numbered_shape [OF m] obtain d ds where
    n: "number = takeWhile isspace (rstrip raw) @ d # ds @ [46]"
    and d: "isdecimal d" and ds: "\<forall>x \<in> set ds. isdecimal x"
    by blast
  have w: "0 < ?w" using short by simp
  from wrap_text_returns [OF w] obtain body_lines where
    wt: "wrap_text (strip text) ?w = Inr body_lines" by blast
  from wrap_text_fits [OF wt] have ne: "body_lines \<noteq> []" by simp
  then obtain c cs where b: "body_lines = c # cs" by (cases body_lines) auto
  have fl: "format_line upper (lines, False) raw =
       Inr (lines @ (?prefix @ hd body_lines)
                  # map (\<lambda>chunk. replicate (length ?prefix) 32 @ chunk) (tl body_lines), False)"
    unfolding format_line_numbered [OF numbered_excludes [OF m] m] wt b
    by (simp only: sum.case with_prefix_Cons list.sel)
  have "number = takeWhile isspace (rstrip raw) @ (d # ds) @ str ''.''"
    by (simp add: n str_def)
  moreover have "list_all isdecimal (d # ds)" using d ds by (simp add: list_all_iff)
  ultimately show ?thesis using wt ne fl by blast
qed

lemma twelve_match:
  "match_numbered (rstrip (str ''12. some text'')) = Some (str ''12.'', str ''some text'')"
  by (simp add: rstrip_def match_numbered_def match_tail_def dot_star_eol_def str_def isspace_def
        isdecimal_def decimal_blocks_def Let_def)

lemma twelve_wrap: "wrap_text (strip (str ''some text'')) (MAX_CHARS_PER_LINE - int (length (str ''12.'' @ str '' ''))) = Inr [str ''some text'']"
  by (simp add: formatter_eval)

lemma numbered_item_example:
  "match_numbered (rstrip (str ''12. some text'')) = Some (str ''12.'', str ''some text'') \<and>
   int (length (str ''12.'' @ str '' '')) < MAX_CHARS_PER_LINE \<and>
   format_line ascii_upper ([], False) (str ''12. some text'') = Inr ([str ''12. some text''], False) \<and>
   length (str ''12.'' @ str '' '') = length (str ''12. '') \<and>
   replicate (length (str ''12.'' @ str '' '')) (32::nat) = str ''    ''"
proof -
  have short: "int (length (str ''12.'' @ str '' '')) < MAX_CHARS_PER_LINE"
    by (simp add: MAX_CHARS_PER_LINE_def str_def)
  from numbered_item [OF twelve_match short, of ascii_upper "[]"] obtain body_lines where
    wt: "wrap_text (strip (str ''some text''))
           (MAX_CHARS_PER_LINE - int (length (str ''12.'' @ str '' ''))) = Inr body_lines"
    and fl: "format_line ascii_upper ([], False) (str ''12. some text'') =
       Inr ([] @ ((str ''12.'' @ str '' '') @ hd body_lines)
                  # map (\<lambda>chunk. replicate (length (str ''12.'' @ str '' '')) 32 @ chunk) (tl body_lines),
            False)"
    by blast
  have "body_lines = [str ''some text'']" using wt twelve_wrap by simp
  then have "format_line ascii_upper ([], False) (str ''12. some text'') = Inr ([str ''12. some text''], False)"
    using fl by (simp add: str_def)
  then show ?thesis using twelve_match short by (simp add: str_def)
qed

text \<open>
  C2. The code breaks the claim on a numbered line with leading whitespace, whatever
  \<^verbatim>\<open>str.upper\<close> is. The prefix is taken from the group \<^verbatim>\<open>(\s*\d+\.)\<close>, which holds
  the leading whitespace of the line: on \<^verbatim>\<open>"  7. "\<close> followed by 90 letters, a space
  and \<^verbatim>\<open>b\<close> the first segment begins with the two spaces and not with the number,
  the body is wrapped at 89 and not at 91, and the continuation is padded with five
  spaces and not with three. The bullet branch, on a line with the same indentation,
  does what the claim says of the numbered one: its prefix is \<^verbatim>\<open>"- "\<close> without the
  leading whitespace, the body is wrapped at 92, and the padding is two spaces.
\<close>

theorem numbered_indent_evaluation:
  "markdown_to_lines upper (str ''  7. '' @ replicate 90 97 @ str '' b'')
     = Inr [str ''  7. '' @ replicate 89 97, str ''     a b''] \<and>
   length (str ''     '') = length (str ''  7. '') \<and> length (str ''7. '') = 3 \<and>
   markdown_to_lines upper (str ''  - '' @ replicate 93 97 @ str '' b'')
     = Inr [str ''- '' @ replicate 92 97, str ''  a b'']"
  by (simp add: formatter_eval replicate_numeral_Cons)

lemma code_line_wrap: "wrap_text (rstrip (str ''code'')) (MAX_CHARS_PER_LINE - 4) = Inr [str ''code'']"
  by (simp add: formatter_eval)

lemma code_line_no_fence: "\<not> startswith (strip (rstrip (str ''code''))) (str ''```'')"
  by (simp add: startswith_def strip_def rstrip_def str_def isspace_def)

lemma pop_blank_lines_code: "pop_blank_lines [[], str ''    code'', []] = [[], str ''    code'']"
  by (simp add: pop_blank_lines.simps str_def)

text \<open>
  C3 (amended). On the document that consists of a fence line, the line \<^verbatim>\<open>code\<close> and a
  closing fence line, the formatter returns exactly two lines: the empty line appended
  for the opening fence, and the content line \<^verbatim>\<open>"    code"\<close> with its four spaces. The
  empty line of the closing fence is trailing and is removed; no fence marker is in
  the output.
\<close>

theorem code_block_document:
  "startswith (strip (rstrip fence1)) (str ''```'') \<Longrightarrow>
   startswith (strip (rstrip fence2)) (str ''```'') \<Longrightarrow>
   \<forall>c \<in> set (fence1 @ fence2). \<not> is_linebreak c \<Longrightarrow>
   markdown_to_lines upper (fence1 @ [10] @ str ''code'' @ [10] @ fence2) = Inr [[], str ''    code'']"
proof -
  assume f1: "startswith (strip (rstrip fence1)) (str ''```'')"
    and f2: "startswith (strip (rstrip fence2)) (str ''```'')"
    and nl: "\<forall>c \<in> set (fence1 @ fence2). \<not> is_linebreak c"
  have ne2: "fence2 \<noteq> []" using f2 by (auto simp: startswith_def strip_def rstrip_def str_def)
  have nl1: "\<forall>c \<in> set fence1. \<not> is_linebreak c" and nl2: "\<forall>c \<in> set fence2. \<not> is_linebreak c"
    using nl by auto
  have nlc: "\<forall>c \<in> set (str ''code''). \<not> is_linebreak c"
    by (simp add: str_def is_linebreak_def)
  have "splitlines (fence1 @ [10] @ str ''code'' @ [10] @ fence2)
          = fence1 # splitlines_from [] (str ''code'' @ 10 # fence2)"
    using splitlines_from_line [OF nl1, of "[]"] by (simp add: splitlines_def)
  also have "splitlines_from [] (str ''code'' @ 10 # fence2) = str ''code'' # splitlines_from [] fence2"
    using splitlines_from_line [OF nlc, of "[]"] by simp
  also have "splitlines_from [] fence2 = [fence2]"
    using splitlines_from_plain [OF nl2, of "[]"] ne2 by simp
  finally have sl: "splitlines (fence1 @ [10] @ str ''code'' @ [10] @ fence2)
          = [fence1, str ''code'', fence2]" .
  have s1: "format_line upper ([], False) fence1 = Inr ([[]], True)"
    using fence_toggles [OF f1, of upper "[]" False] by simp
  have s2: "format_line upper ([[]], True) (str ''code'') = Inr ([[], str ''    code''], True)"
    unfolding format_line_code [OF code_line_no_fence] code_line_wrap by (simp add: str_def)
  have s3: "format_line upper ([[], str ''    code''], True) fence2
              = Inr ([[], str ''    code'', []], False)"
    using fence_toggles [OF f2, of upper "[[], str ''    code'']" True] by simp
  show ?thesis
    unfolding markdown_to_lines_def sl by (simp add: s1 s2 s3 pop_blank_lines_code)
qed

lemma plain_fence: "startswith (strip (rstrip (str ''```''))) (str ''```'')"
  by (simp add: startswith_def strip_def rstrip_def str_def isspace_def)

theorem code_block_document_witness:
  "startswith (strip (rstrip (str ''```''))) (str ''```'') \<and>
   markdown_to_lines ascii_upper (str ''```'' @ [10] @ str ''code'' @ [10] @ str ''```'')
     = Inr [[], str ''    code'']"
proof -
  have nl: "\<forall>c \<in> set (str ''```'' @ str ''```''). \<not> is_linebreak c"
    by (simp add: str_def is_linebreak_def)
  from code_block_document [OF plain_fence plain_fence nl, of ascii_upper] plain_fence
  show ?thesis by simp
qed

text \<open>
  C3 as stated fails: the output is not the single line \<^verbatim>\<open>"    code"\<close>, an empty line
  comes first.
\<close>

theorem code_block_counterexample:
  "markdown_to_lines ascii_upper (str ''```'' @ [10] @ str ''code'' @ [10] @ str ''```'')
     = Inr [[], str ''    code''] \<and>
   markdown_to_lines ascii_upper (str ''```'' @ [10] @ str ''code'' @ [10] @ str ''```'')
     \<noteq> Inr [str ''    code'']"
  by (simp add: formatter_eval)

lemma format_lines_append:
  "format_lines upper state (xs @ ys) =
     (case format_lines upper state xs of
        Inl e \<Rightarrow> Inl e
      | Inr state' \<Rightarrow> format_lines upper state' ys)"
proof (induction xs arbitrary: state)
  case Nil
  show ?case by simp
next
  case (Cons x xs)
  show ?case by (cases "format_line upper state x") (simp_all add: Cons.IH)
qed

lemma format_line_extends:
  assumes "format_line upper (lines, in_code_block) raw = Inr (lines', in_code_block')"
  shows "\<exists>added. lines' = lines @ added"
proof (cases "startswith (strip (rstrip raw)) (str ''```'')")
  case True
  from fence_toggles [OF True, of upper lines in_code_block] assms show ?thesis by auto
next
  case nf: False
  show ?thesis
  proof (cases in_code_block)
    case True
    have a1: "format_line upper (lines, True) raw = Inr (lines', in_code_block')"
      using assms True by simp
    from a1 [unfolded format_line_code [OF nf]] show ?thesis by (auto split: sum.splits)
  next
    case ncb: False
    have a1: "format_line upper (lines, False) raw = Inr (lines', in_code_block')"
      using assms ncb by simp
    show ?thesis
    proof (cases "strip (rstrip raw) = []")
      case True
      from a1 [unfolded format_line_blank [OF nf True]] show ?thesis by auto
    next
      case ne: False
      show ?thesis
      proof (cases "match_heading (rstrip raw)")
        case (Some heading2)
        from a1 [unfolded format_line_heading [OF nf ne Some]] show ?thesis
          by (auto split: sum.splits if_splits)
      next
        case nh: None
        show ?thesis
        proof (cases "match_bullet (rstrip raw)")
          case (Some bullet2)
          from a1 [unfolded format_line_bullet [OF nf ne nh Some]] show ?thesis
            by (auto split: sum.splits)
        next
          case nb: None
          show ?thesis
          proof (cases "match_numbered (rstrip raw)")
            case (Some p)
            obtain numbered1 numbered2 where p: "p = (numbered1, numbered2)" by (cases p)
            from a1 [unfolded format_line_numbered [OF nf ne nh nb Some [unfolded p]]]
            show ?thesis by (auto split: sum.splits)
          next
            case nn: None
            from a1 [unfolded format_line_plain [OF nf ne nh nb nn]] show ?thesis
              by (auto split: sum.splits)
          qed
        qed
      qed
    qed
  qed
qed

lemma format_lines_extends:
  "format_lines upper (lines, in_code_block) raws = Inr (lines', in_code_block') \<Longrightarrow>
   \<exists>added. lines' = lines @ added"
proof (induction raws arbitrary: lines in_code_block)
  case Nil
  then show ?case by simp
next
  case (Cons raw raws)
  from Cons.prems obtain lines1 b1 where
    s: "format_line upper (lines, in_code_block) raw = Inr (lines1, b1)"
    and r: "format_lines upper (lines1, b1) raws = Inr (lines', in_code_block')"
    by (auto split: sum.splits)
  from format_line_extends [OF s] obtain a1 where a1: "lines1 = lines @ a1" by blast
  from Cons.IH [OF r] obtain a2 where "lines' = lines1 @ a2" by blast
  then show ?case using a1 by simp
qed

lemma pop_blank_lines_snoc_blank: "pop_blank_lines (xs @ [[]]) = pop_blank_lines xs"
  by (subst pop_blank_lines.simps) simp

lemma pop_blank_lines_snoc: "y \<noteq> [] \<Longrightarrow> pop_blank_lines (xs @ [y]) = xs @ [y]"
  by (subst pop_blank_lines.simps) simp

lemma pop_blank_lines_blank: "\<forall>l \<in> set ys. l = [] \<Longrightarrow> pop_blank_lines (xs @ ys) = pop_blank_lines xs"
proof (induction ys rule: rev_induct)
  case Nil
  show ?case by simp
next
  case (snoc y ys)
  then have "y = []" by simp
  then have "pop_blank_lines (xs @ ys @ [y]) = pop_blank_lines (xs @ ys)"
    using pop_blank_lines_snoc_blank [of "xs @ ys"] by simp
  then show ?case using snoc by simp
qed

lemma pop_blank_lines_nonblank:
  "\<exists>l \<in> set ys. l \<noteq> [] \<Longrightarrow> pop_blank_lines (xs @ ys) = xs @ pop_blank_lines ys"
proof (induction ys rule: rev_induct)
  case Nil
  then show ?case by simp
next
  case (snoc y ys)
  show ?case
  proof (cases "y = []")
    case True
    with snoc.prems have "\<exists>l \<in> set ys. l \<noteq> []" by auto
    then have "pop_blank_lines (xs @ ys) = xs @ pop_blank_lines ys" by (rule snoc.IH)
    then show ?thesis
      using True pop_blank_lines_snoc_blank [of "xs @ ys"] pop_blank_lines_snoc_blank [of ys]
      by simp
  next
    case False
    then show ?thesis
      using pop_blank_lines_snoc [of y "xs @ ys"] pop_blank_lines_snoc [of y ys] by simp
  qed
qed

text \<open>
  C9 (amended). Take a document in which a raw line has a stripped form that begins with
  three backticks, whatever follows them, and the state in which the loop reaches that
  line. The loop toggles the code-block flag and appends exactly one empty line and
  nothing else, so the text after the backticks is discarded, and it formats the lines
  after the fence from that state. When they are formatted without an exception, the
  lines before the fence, the empty line and the lines appended after it are the line
  sequence from which the trailing empty lines are removed: the empty line of the fence
  is in the output when a non-empty line is appended after it, and it is removed with
  the other trailing empty lines when none is.
\<close>

theorem fence_line_in_document:
  "startswith (strip (rstrip raw)) (str ''```'') \<Longrightarrow>
   splitlines markdown = before @ raw # after \<Longrightarrow>
   format_lines upper ([], False) before = Inr (lines, in_code_block) \<Longrightarrow>
   format_lines upper ([], False) (before @ [raw]) = Inr (lines @ [[]], \<not> in_code_block) \<and>
   format_lines upper ([], False) (splitlines markdown)
     = format_lines upper (lines @ [[]], \<not> in_code_block) after \<and>
   (\<forall>e. format_lines upper (lines @ [[]], \<not> in_code_block) after = Inl e \<longrightarrow>
        markdown_to_lines upper markdown = Inl e) \<and>
   (\<forall>lines' in_code_block'.
      format_lines upper (lines @ [[]], \<not> in_code_block) after = Inr (lines', in_code_block') \<longrightarrow>
      (\<exists>added.
         lines' = lines @ [] # added \<and>
         markdown_to_lines upper markdown = Inr (pop_blank_lines (lines @ [] # added)) \<and>
         ((\<exists>l \<in> set added. l \<noteq> []) \<longrightarrow>
            markdown_to_lines upper markdown = Inr (lines @ [] # pop_blank_lines added)) \<and>
         ((\<forall>l \<in> set added. l = []) \<longrightarrow>
            markdown_to_lines upper markdown = Inr (pop_blank_lines lines))))"
proof -
  assume fence: "startswith (strip (rstrip raw)) (str ''```'')"
    and sl: "splitlines markdown = before @ raw # after"
    and pre: "format_lines upper ([], False) before = Inr (lines, in_code_block)"
  let ?state = "(lines @ [[]], \<not> in_code_block)"
  have step: "format_line upper (lines, in_code_block) raw = Inr ?state"
    using fence by (rule fence_toggles)
  have one: "format_lines upper ([], False) (before @ [raw]) = Inr ?state"
    by (simp add: format_lines_append pre step)
  have all: "format_lines upper ([], False) (splitlines markdown) = format_lines upper ?state after"
    unfolding sl by (simp add: format_lines_append pre step)
  have raises: "markdown_to_lines upper markdown = Inl e"
    if "format_lines upper ?state after = Inl e" for e
    using that by (simp add: markdown_to_lines_def all)
  have returns: "\<exists>added.
         lines' = lines @ [] # added \<and>
         markdown_to_lines upper markdown = Inr (pop_blank_lines (lines @ [] # added)) \<and>
         ((\<exists>l \<in> set added. l \<noteq> []) \<longrightarrow>
            markdown_to_lines upper markdown = Inr (lines @ [] # pop_blank_lines added)) \<and>
         ((\<forall>l \<in> set added. l = []) \<longrightarrow>
            markdown_to_lines upper markdown = Inr (pop_blank_lines lines))"
    if r: "format_lines upper ?state after = Inr (lines', b')" for lines' b'
  proof -
    from format_lines_extends [OF r] obtain added where a: "lines' = lines @ [] # added" by auto
    have m: "markdown_to_lines upper markdown = Inr (pop_blank_lines (lines @ [] # added))"
      using r a by (simp add: markdown_to_lines_def all)
    have keep: "pop_blank_lines (lines @ [] # added) = lines @ [] # pop_blank_lines added"
      if "\<exists>l \<in> set added. l \<noteq> []"
      using pop_blank_lines_nonblank [OF that, of "lines @ [[]]"] by simp
    have gone: "pop_blank_lines (lines @ [] # added) = pop_blank_lines lines"
      if "\<forall>l \<in> set added. l = []"
    proof -
      have "\<forall>l \<in> set ([] # added). l = []" using that by simp
      then show ?thesis by (rule pop_blank_lines_blank)
    qed
    show ?thesis using a m keep gone by (intro exI [of _ added]) simp
  qed
  show ?thesis using one all raises returns by blast
qed

lemma fenced_document_lines:
  "splitlines (str ''x'' @ [10] @ str ''  ```python'' @ [10] @ str ''y'')
     = [str ''x''] @ str ''  ```python'' # [str ''y'']"
  by (simp add: splitlines_def str_def is_linebreak_def)

lemma fenced_document_before:
  "format_lines ascii_upper ([], False) [str ''x''] = Inr ([str ''x''], False)"
  by (simp add: formatter_eval)

lemma fenced_document_after:
  "format_lines ascii_upper ([str ''x''] @ [[]], \<not> False) [str ''y'']
     = Inr ([str ''x''] @ [] # [str ''    y''], True)"
  by (simp add: formatter_eval)

theorem fence_line_in_document_witness:
  "startswith (strip (rstrip (str ''  ```python''))) (str ''```'') \<and>
   splitlines (str ''x'' @ [10] @ str ''  ```python'' @ [10] @ str ''y'')
     = [str ''x''] @ str ''  ```python'' # [str ''y''] \<and>
   format_lines ascii_upper ([], False) [str ''x''] = Inr ([str ''x''], False) \<and>
   format_lines ascii_upper ([], False) ([str ''x''] @ [str ''  ```python''])
     = Inr ([str ''x'', []], True) \<and>
   markdown_to_lines ascii_upper (str ''x'' @ [10] @ str ''  ```python'' @ [10] @ str ''y'')
     = Inr [str ''x'', [], str ''    y'']"
proof -
  note t = fence_line_in_document [OF python_fence fenced_document_lines fenced_document_before]
  have one: "format_lines ascii_upper ([], False) ([str ''x''] @ [str ''  ```python''])
     = Inr ([str ''x'', []], True)"
    using t [THEN conjunct1] by simp
  from t [THEN conjunct2, THEN conjunct2, THEN conjunct2, rule_format, OF fenced_document_after]
  obtain added where
    a: "[str ''x''] @ [] # [str ''    y''] = [str ''x''] @ [] # added"
    and keep: "(\<exists>l \<in> set added. l \<noteq> []) \<longrightarrow>
       markdown_to_lines ascii_upper (str ''x'' @ [10] @ str ''  ```python'' @ [10] @ str ''y'')
         = Inr ([str ''x''] @ [] # pop_blank_lines added)"
    by blast
  from a have added: "added = [str ''    y'']" by simp
  have "markdown_to_lines ascii_upper (str ''x'' @ [10] @ str ''  ```python'' @ [10] @ str ''y'')
     = Inr [str ''x'', [], str ''    y'']"
    using keep by (simp add: added pop_blank_lines.simps str_def)
  then show ?thesis
    using python_fence fenced_document_lines fenced_document_before one by simp
qed

text \<open>
  C9 as stated fails for a fence whose empty line ends up in the trailing empty lines:
  the formatter returns no empty line for the document that is a fence with an info
  string, and none for a line followed by that fence.
\<close>

theorem trailing_fence_counterexample:
  "startswith (strip (rstrip (str ''```python''))) (str ''```'') \<and>
   markdown_to_lines ascii_upper (str ''```python'') = Inr [] \<and>
   markdown_to_lines ascii_upper (str ''x'' @ [10] @ str ''```python'') = Inr [str ''x'']"
  by (simp add: formatter_eval)

section \<open>Properties of main\<close>

lemma paginate_returns: "0 < n \<Longrightarrow> \<exists>pages. paginate L n = Inr pages"
  by (simp add: paginate_def)

lemma pdf_output_returns: "\<exists>out. pdf_output pages = Inr out"
  using pdf_output_result [of pages] by blast

lemma lines_per_page: "int LINES_PER_PAGE = 53"
  by (simp add: LINES_PER_PAGE_def PAGE_HEIGHT_def MARGIN_TOP_def MARGIN_BOTTOM_def LINE_HEIGHT_def)

text \<open>
  C8 (amended). With an argument count other than two, \<open>main\<close> prints the usage
  message; with two arguments and an input path that does not exist, it prints the
  error message; in both cases it returns 1 when the print succeeds, the print is the
  only effect, so no write is attempted, and an exception of the print ends the run.
  When the input exists, is read and formatted without an exception and the write
  succeeds, \<open>main\<close> writes the PDF bytes of the paginated lines, prints the
  confirmation with the page count and returns 0 when that print succeeds. An
  exception of the existence test, of reading or of the formatter ends the run before
  any effect; an exception of the write ends it after the write was attempted and
  before the confirmation; an exception of the last print ends it after the write.
\<close>

theorem main_outcomes:
  "(length argv \<noteq> 3 \<longrightarrow>
      main upper sys argv =
        ([Print usage], case print_line sys usage of None \<Rightarrow> Inr 1 | Some e \<Rightarrow> Inl e)) \<and>
   (length argv = 3 \<and> path_exists sys (argv ! 1) = Inr False \<longrightarrow>
      main upper sys argv =
        ([Print (str ''Input file not found: '' @ path_str sys (argv ! 1))],
         case print_line sys (str ''Input file not found: '' @ path_str sys (argv ! 1)) of
           None \<Rightarrow> Inr 1 | Some e \<Rightarrow> Inl e)) \<and>
   (length argv = 3 \<and> path_exists sys (argv ! 1) = Inl e \<longrightarrow>
      main upper sys argv = ([], Inl e)) \<and>
   (length argv = 3 \<and> path_exists sys (argv ! 1) = Inr True \<and>
    read_text sys (argv ! 1) = Inl e \<longrightarrow>
      main upper sys argv = ([], Inl e)) \<and>
   (length argv = 3 \<and> path_exists sys (argv ! 1) = Inr True \<and>
    read_text sys (argv ! 1) = Inr markdown \<and> markdown_to_lines upper markdown = Inl e \<longrightarrow>
      main upper sys argv = ([], Inl e)) \<and>
   (length argv = 3 \<and> path_exists sys (argv ! 1) = Inr True \<and>
    read_text sys (argv ! 1) = Inr markdown \<and> markdown_to_lines upper markdown = Inr lines \<longrightarrow>
      (\<exists>pages out.
         paginate lines (int LINES_PER_PAGE) = Inr pages \<and> pdf_output pages = Inr out \<and>
         (write_bytes sys (argv ! 2) out = None \<longrightarrow>
            main upper sys argv =
              ([Write (argv ! 2) out,
                Print (str ''PDF generated: '' @ path_str sys (argv ! 2) @ str '' (''
                       @ str (decimal (length pages)) @ str '' pages)'')],
               case print_line sys
                      (str ''PDF generated: '' @ path_str sys (argv ! 2) @ str '' (''
                       @ str (decimal (length pages)) @ str '' pages)'') of
                 None \<Rightarrow> Inr 0 | Some e \<Rightarrow> Inl e)) \<and>
         (write_bytes sys (argv ! 2) out = Some e \<longrightarrow>
            main upper sys argv = ([Write (argv ! 2) out], Inl e))))"
proof (intro conjI impI)
  show "main upper sys argv =
        ([Print usage], case print_line sys usage of None \<Rightarrow> Inr 1 | Some e \<Rightarrow> Inl e)"
    if "length argv \<noteq> 3"
    using that by (simp add: main_def py_print_def split: option.splits)
  show "main upper sys argv =
        ([Print (str ''Input file not found: '' @ path_str sys (argv ! 1))],
         case print_line sys (str ''Input file not found: '' @ path_str sys (argv ! 1)) of
           None \<Rightarrow> Inr 1 | Some e \<Rightarrow> Inl e)"
    if "length argv = 3 \<and> path_exists sys (argv ! 1) = Inr False"
    using that by (simp add: main_def py_print_def Let_def split: option.splits)
  show "main upper sys argv = ([], Inl e)"
    if "length argv = 3 \<and> path_exists sys (argv ! 1) = Inl e"
    using that by (simp add: main_def)
  show "main upper sys argv = ([], Inl e)"
    if "length argv = 3 \<and> path_exists sys (argv ! 1) = Inr True \<and> read_text sys (argv ! 1) = Inl e"
    using that by (simp add: main_def)
  show "main upper sys argv = ([], Inl e)"
    if "length argv = 3 \<and> path_exists sys (argv ! 1) = Inr True \<and>
        read_text sys (argv ! 1) = Inr markdown \<and> markdown_to_lines upper markdown = Inl e"
    using that by (simp add: main_def)
  assume a: "length argv = 3 \<and> path_exists sys (argv ! 1) = Inr True \<and>
    read_text sys (argv ! 1) = Inr markdown \<and> markdown_to_lines upper markdown = Inr lines"
  obtain pages where p: "paginate lines (int LINES_PER_PAGE) = Inr pages"
    using paginate_returns [of "int LINES_PER_PAGE" lines] by (auto simp: lines_per_page)
  obtain out where o: "pdf_output pages = Inr out" using pdf_output_returns by blast
  let ?msg = "str ''PDF generated: '' @ path_str sys (argv ! 2) @ str '' (''
                       @ str (decimal (length pages)) @ str '' pages)''"
  have ok: "main upper sys argv =
              ([Write (argv ! 2) out, Print ?msg],
               case print_line sys ?msg of None \<Rightarrow> Inr 0 | Some e \<Rightarrow> Inl e)"
    if "write_bytes sys (argv ! 2) out = None"
    using a p o that
    by (simp add: main_def generate_pdf_def py_print_def Let_def split: option.splits)
  have bad: "main upper sys argv = ([Write (argv ! 2) out], Inl e)"
    if "write_bytes sys (argv ! 2) out = Some e"
    using a p o that by (simp add: main_def generate_pdf_def Let_def)
  show "\<exists>pages out.
         paginate lines (int LINES_PER_PAGE) = Inr pages \<and> pdf_output pages = Inr out \<and>
         (write_bytes sys (argv ! 2) out = None \<longrightarrow>
            main upper sys argv =
              ([Write (argv ! 2) out,
                Print (str ''PDF generated: '' @ path_str sys (argv ! 2) @ str '' (''
                       @ str (decimal (length pages)) @ str '' pages)'')],
               case print_line sys
                      (str ''PDF generated: '' @ path_str sys (argv ! 2) @ str '' (''
                       @ str (decimal (length pages)) @ str '' pages)'') of
                 None \<Rightarrow> Inr 0 | Some e \<Rightarrow> Inl e)) \<and>
         (write_bytes sys (argv ! 2) out = Some e \<longrightarrow>
            main upper sys argv = ([Write (argv ! 2) out], Inl e))"
    using p o ok bad by (intro exI [of _ pages] exI [of _ out]) simp
qed

lemma hello_lines: "markdown_to_lines ascii_upper (str ''hello'') = Inr [str ''hello'']"
  by (simp add: formatter_eval)

lemma hello_pages: "paginate [str ''hello''] (int LINES_PER_PAGE) = Inr [[str ''hello'']]"
  by (simp add: lines_per_page paginate_def range0_def)

lemma long_number_document:
  "markdown_to_lines ascii_upper (replicate 92 49 @ str ''. x'') = Inl ValueError"
  by (simp add: formatter_eval replicate_numeral_Cons)

theorem main_outcomes_witness:
  "main ascii_upper (file_system [str ''in.md'' \<mapsto> str ''hello'']) [str ''prog'', str ''in.md'']
     = ([Print usage], Inr 1) \<and>
   main ascii_upper
        ((file_system [str ''in.md'' \<mapsto> str ''hello''])
           \<lparr>print_line := (\<lambda>text. Some UnicodeEncodeError)\<rparr>)
        [str ''prog'', str ''in.md'']
     = ([Print usage], Inl UnicodeEncodeError) \<and>
   main ascii_upper (file_system [str ''in.md'' \<mapsto> str ''hello''])
        [str ''prog'', str ''no.md'', str ''out.pdf'']
     = ([Print (str ''Input file not found: no.md'')], Inr 1) \<and>
   (\<exists>out. pdf_output [[str ''hello'']] = Inr out \<and>
      main ascii_upper (file_system [str ''in.md'' \<mapsto> str ''hello''])
           [str ''prog'', str ''in.md'', str ''out.pdf'']
        = ([Write (str ''out.pdf'') out, Print (str ''PDF generated: out.pdf (1 pages)'')], Inr 0))"
proof -
  let ?sys = "file_system [str ''in.md'' \<mapsto> str ''hello'']"
  let ?mute = "?sys \<lparr>print_line := (\<lambda>text. Some UnicodeEncodeError)\<rparr>"
  have ne: "str ''no.md'' \<noteq> str ''in.md''" by (simp add: str_def)
  have one: "decimal (Suc 0) = ''1''" by code_simp
  have first: "main ascii_upper ?sys [str ''prog'', str ''in.md''] = ([Print usage], Inr 1)"
    using main_outcomes [of "[str ''prog'', str ''in.md'']" ascii_upper ?sys, THEN conjunct1]
    by (simp add: file_system_def)
  have mute: "main ascii_upper ?mute [str ''prog'', str ''in.md'']
              = ([Print usage], Inl UnicodeEncodeError)"
    using main_outcomes [of "[str ''prog'', str ''in.md'']" ascii_upper ?mute, THEN conjunct1]
    by (simp add: file_system_def)
  have second: "main ascii_upper ?sys [str ''prog'', str ''no.md'', str ''out.pdf'']
     = ([Print (str ''Input file not found: no.md'')], Inr 1)"
    using main_outcomes [of "[str ''prog'', str ''no.md'', str ''out.pdf'']" ascii_upper ?sys,
        THEN conjunct2, THEN conjunct1] ne
    by (simp add: file_system_def) (simp add: str_def)
  have third: "\<exists>out. pdf_output [[str ''hello'']] = Inr out \<and>
      main ascii_upper ?sys [str ''prog'', str ''in.md'', str ''out.pdf'']
        = ([Write (str ''out.pdf'') out, Print (str ''PDF generated: out.pdf (1 pages)'')], Inr 0)"
  proof -
    let ?argv = "[str ''prog'', str ''in.md'', str ''out.pdf'']"
    have pre: "length ?argv = 3 \<and> path_exists ?sys (?argv ! 1) = Inr True \<and>
        read_text ?sys (?argv ! 1) = Inr (str ''hello'') \<and>
        markdown_to_lines ascii_upper (str ''hello'') = Inr [str ''hello'']"
      using hello_lines by (simp add: file_system_def)
    note ex = main_outcomes [of ?argv ascii_upper ?sys OSError "str ''hello''" "[str ''hello'']",
        THEN conjunct2, THEN conjunct2, THEN conjunct2, THEN conjunct2, THEN conjunct2,
        THEN mp, OF pre]
    from ex show ?thesis
    proof (elim exE conjE)
      fix pages :: "pystr list list" and out
      let ?msg = "str ''PDF generated: '' @ path_str ?sys (?argv ! 2) @ str '' (''
                       @ str (decimal (length pages)) @ str '' pages)''"
      assume p: "paginate [str ''hello''] (int LINES_PER_PAGE) = Inr pages"
        and o: "pdf_output pages = Inr out"
        and m: "write_bytes ?sys (?argv ! 2) out = None \<longrightarrow>
            main ascii_upper ?sys ?argv =
              ([Write (?argv ! 2) out, Print ?msg],
               case print_line ?sys ?msg of None \<Rightarrow> Inr 0 | Some e \<Rightarrow> Inl e)"
      have pg: "pages = [[str ''hello'']]" using p hello_pages by simp
      have w: "write_bytes ?sys (?argv ! 2) out = None" by (simp add: file_system_def)
      have "main ascii_upper ?sys ?argv
          = ([Write (str ''out.pdf'') out, Print (str ''PDF generated: out.pdf (1 pages)'')], Inr 0)"
        using m w by (simp add: pg one file_system_def) (simp add: str_def)
      then show ?thesis using o pg by blast
    qed
  qed
  show ?thesis using first mute second third by blast
qed

text \<open>
  C8 as stated fails in its last part: a run with two arguments and an existing input
  need not write and return 0. On an input whose only line is a numbered item with a
  prefix of 94 characters the formatter raises ValueError, and \<open>main\<close> ends with that
  exception and without any effect.
\<close>

theorem main_raises_counterexample:
  "length [str ''prog'', str ''in.md'', str ''out.pdf''] = 3 \<and>
   path_exists (file_system [str ''in.md'' \<mapsto> replicate 92 49 @ str ''. x'']) (str ''in.md'') = Inr True \<and>
   main ascii_upper (file_system [str ''in.md'' \<mapsto> replicate 92 49 @ str ''. x''])
        [str ''prog'', str ''in.md'', str ''out.pdf'']
     = ([], Inl ValueError)"
  by (simp add: main_def file_system_def long_number_document)

end
